theory Spec2Isabelle
  imports Main "HOL-Library.AList"
begin

section \<open>Data model of walkies.py\<close>

text \<open>
  A path is the list of its components; \<open>root / name\<close> appends one component.
  Numeric ids are non-negative (\<open>st_uid\<close>, \<open>st_gid\<close>, \<open>pw_gid\<close>).
\<close>

type_synonym path = "string list"

datatype FObj = FILE | DIR

text \<open>
  The dataclass \<open>Ownership\<close>. The field \<open>id\<close> is written \<open>id'\<close>. The Python
  \<open>members\<close> is a \<open>set[str]\<close>: it is kept as a list without duplicates, and the order in
  which Python iterates over it is applied where it is observed (see \<open>set_iter\<close>).
\<close>

record Ownership =
  name :: string
  id' :: nat
  pgrp :: nat
  descr :: string
  files :: "path list"
  dirs :: "path list"
  members :: "string list"

text \<open>
  The fields of \<open>Walker\<close>. A Python \<open>dict\<close> keeps its keys in insertion order: it is an
  association list, \<open>d[k] = v\<close> is \<open>AList.update\<close> (in place for a present key, at the end
  for a new one), \<open>del d[k]\<close> is \<open>AList.delete\<close>, \<open>k in d\<close> is \<open>map_of d k \<noteq> None\<close> and
  \<open>d.keys()\<close> is \<open>map fst d\<close>.
\<close>

type_synonym table = "(nat \<times> Ownership) list"

record Walker =
  top' :: path
  by_user :: table
  by_group :: table
  pgrps :: "nat set"

definition Walker_init :: "path \<Rightarrow> Walker" where
  "Walker_init t = \<lparr>top' = t, by_user = [], by_group = [], pgrps = {}\<rparr>"

section \<open>The environment: identity database, file system, exceptions\<close>

datatype pyerror = KeyError | RuntimeError | FileNotFoundError | PermissionError | OSError

text \<open>
  The modules \<open>pwd\<close> and \<open>grp\<close>. An entry of \<open>pwd\<close> is indexed \<open>[0]\<close> name, \<open>[2]\<close> uid,
  \<open>[3]\<close> gid, \<open>[4]\<close> gecos; an entry of \<open>grp\<close> is \<open>[0]\<close> name, \<open>[2]\<close> gid, \<open>[3]\<close> member
  names. A lookup that finds nothing raises \<open>KeyError\<close>: here it returns \<open>None\<close> and the
  caller turns it into the exception.
\<close>

record pwent =
  pw_name :: string
  pw_uid :: nat
  pw_gid :: nat
  pw_gecos :: string

record grent =
  gr_name :: string
  gr_gid :: nat
  gr_mem :: "string list"

record identity_db =
  getpwuid :: "nat \<Rightarrow> pwent option"
  getpwnam :: "string \<Rightarrow> pwent option"
  getgrgid :: "nat \<Rightarrow> grent option"

text \<open>
  \<open>Path.stat()\<close> follows symbolic links and returns the owner \<open>(st_uid, st_gid)\<close> or
  raises; it is a parameter \<open>stat\<close> of the model.
\<close>

type_synonym stat_fn = "path \<Rightarrow> pyerror + (nat \<times> nat)"

text \<open>
  What \<open>Path.walk\<close> sees: a directory with named children, or an entry of another kind.
\<close>

datatype entry_kind = Regular | Symlink | Fifo | Device | Socket

datatype fsnode = Entry entry_kind | Directory "(string \<times> fsnode) list"

fun is_dir :: "fsnode \<Rightarrow> bool" where
  "is_dir (Directory es) = True"
| "is_dir (Entry k) = False"

definition dirnames :: "(string \<times> fsnode) list \<Rightarrow> string list" where
  "dirnames es = map fst (filter (\<lambda>e. is_dir (snd e)) es)"

definition filenames :: "(string \<times> fsnode) list \<Rightarrow> string list" where
  "filenames es = map fst (filter (\<lambda>e. \<not> is_dir (snd e)) es)"

text \<open>
  \<open>Path.walk(top_down=False, follow_symlinks=False)\<close> of the standard library: it scans a
  directory, puts the names of the entries that are directories (a symbolic link is not
  one, since links are not followed) into \<open>dirnames\<close> and all the others into
  \<open>filenames\<close>, yields the triples of the subdirectories first and the directory's own
  triple last. An error of the scan (the path is missing, is not a directory, cannot be
  read) is ignored, \<open>on_error\<close> being \<open>None\<close>: nothing is yielded for that path.
\<close>

fun walk :: "path \<Rightarrow> fsnode \<Rightarrow> (path \<times> string list \<times> string list) list" where
  "walk p (Entry k) = []"
| "walk p (Directory es) =
     concat (map (\<lambda>e. walk (p @ [fst e]) (snd e)) (filter (\<lambda>e. is_dir (snd e)) es))
     @ [(p, dirnames es, filenames es)]"

definition walk_top :: "path \<Rightarrow> fsnode option \<Rightarrow> (path \<times> string list \<times> string list) list" where
  "walk_top p root = (case root of None \<Rightarrow> [] | Some t \<Rightarrow> walk p t)"

section \<open>Walker._add_thing\<close>

definition new_record :: "string \<Rightarrow> nat \<Rightarrow> nat \<Rightarrow> string \<Rightarrow> Ownership" where
  "new_record n i g d =
     \<lparr>name = n, id' = i, pgrp = g, descr = d, files = [], dirs = [], members = []\<rparr>"

definition contains :: "table \<Rightarrow> nat \<Rightarrow> bool" where
  "contains d k = (map_of d k \<noteq> None)"

text \<open>\<open>s.add(x)\<close> on a set.\<close>

definition set_add :: "string \<Rightarrow> string list \<Rightarrow> string list" where
  "set_add x xs = (if x \<in> set xs then xs else xs @ [x])"

text \<open>\<open>d[k].files.append(item)\<close> or \<open>d[k].dirs.append(item)\<close>; the key is present when called.\<close>

definition append_item :: "FObj \<Rightarrow> path \<Rightarrow> nat \<Rightarrow> table \<Rightarrow> table" where
  "append_item itype item k d =
     (case map_of d k of
        None \<Rightarrow> d
      | Some r \<Rightarrow>
          (if itype = FILE then AList.update k (r\<lparr>files := files r @ [item]\<rparr>) d
           else AList.update k (r\<lparr>dirs := dirs r @ [item]\<rparr>) d))"

definition add_thing :: "identity_db \<Rightarrow> stat_fn \<Rightarrow> path \<Rightarrow> FObj \<Rightarrow> Walker \<Rightarrow> pyerror + Walker" where
  "add_thing db stat item itype w =
     (case stat item of
        Inl e \<Rightarrow> (if e = FileNotFoundError \<or> e = PermissionError then Inr w else Inl e)
      | Inr (uid, gid) \<Rightarrow>
     (case getpwuid db uid of
        None \<Rightarrow> Inl KeyError
      | Some pw \<Rightarrow>
     (case getgrgid db gid of
        None \<Rightarrow> Inl KeyError
      | Some gr \<Rightarrow>
     (let uname = pw_name pw;
          udesc = pw_gecos pw;
          ugrp = pw_gid pw;
          gname = gr_name gr;
          pg = insert ugrp (pgrps w);
          bu = (if \<not> contains (by_user w) uid
                then AList.update uid (new_record uname uid ugrp udesc) (by_user w)
                else by_user w);
          bg = (if \<not> contains (by_group w) gid
                then AList.update gid (new_record gname gid gid []) (by_group w)
                else by_group w)
      in
     (case (if \<not> contains bg ugrp
            then (case getgrgid db ugrp of
                    None \<Rightarrow> Inl KeyError
                  | Some grpdef \<Rightarrow>
                      Inr (AList.update ugrp
                             ((new_record (gr_name grpdef) ugrp ugrp [])
                                \<lparr>members := fold set_add (gr_mem grpdef) []\<rparr>) bg))
            else Inr bg) of
        Inl e \<Rightarrow> Inl e
      | Inr bg' \<Rightarrow>
          Inr (w\<lparr>by_user := append_item itype item uid bu,
                 by_group := append_item itype item gid bg',
                 pgrps := pg\<rparr>))))))"

section \<open>Walker._filter_membership\<close>

text \<open>The first loop runs over a copy of the keys and deletes the users that own nothing.\<close>

fun purge_users :: "nat list \<Rightarrow> table \<Rightarrow> pyerror + table" where
  "purge_users [] d = Inr d"
| "purge_users (uid # uids) d =
     (case map_of d uid of
        None \<Rightarrow> Inl KeyError
      | Some r \<Rightarrow>
          purge_users uids
            (if length (files r) = 0 \<and> length (dirs r) = 0 then AList.delete uid d else d))"

text \<open>The second loop looks every remaining user up again and collects the primary groups.\<close>

fun collect_pgrps :: "identity_db \<Rightarrow> nat list \<Rightarrow> nat set \<Rightarrow> pyerror + nat set" where
  "collect_pgrps db [] pg = Inr pg"
| "collect_pgrps db (uid # uids) pg =
     (case getpwuid db uid of
        None \<Rightarrow> Inl KeyError
      | Some pwent \<Rightarrow> collect_pgrps db uids (insert (pw_gid pwent) pg))"

text \<open>
  The third loop is \<open>for gid in self._by_group\<close>, over the dictionary itself and not over a
  copy of its keys. A dictionary iterator remembers the number of entries it started with
  (\<open>used\<close>) and compares it with the dictionary at every step, also at the step that
  would end the loop; when they differ it raises \<open>RuntimeError\<close> (dictionary changed size
  during iteration). \<open>gids\<close> are the keys not yet visited.
\<close>

fun purge_groups :: "nat set \<Rightarrow> nat \<Rightarrow> nat list \<Rightarrow> table \<Rightarrow> pyerror + table" where
  "purge_groups pg used [] d = (if length d \<noteq> used then Inl RuntimeError else Inr d)"
| "purge_groups pg used (gid # gids) d =
     (if length d \<noteq> used then Inl RuntimeError
      else (case map_of d gid of
              None \<Rightarrow> Inl KeyError
            | Some r \<Rightarrow>
                purge_groups pg used gids
                  (if \<not> (length (files r) > 0 \<or> length (dirs r) > 0 \<or> gid \<in> pg)
                   then AList.delete gid d else d)))"

text \<open>
  The inner loop of the fourth pass: \<open>pwd.getpwnam(mem)\<close> for every member, kept when the
  uid of the entry is a key of the user table. The set of names kept and the exception
  raised do not depend on the order in which the set is visited.
\<close>

fun keep_members :: "identity_db \<Rightarrow> table \<Rightarrow> string list \<Rightarrow> string list \<Rightarrow> pyerror + string list" where
  "keep_members db bu [] keep = Inr keep"
| "keep_members db bu (mem # mems) keep =
     (case getpwnam db mem of
        None \<Rightarrow> Inl KeyError
      | Some urec \<Rightarrow>
          keep_members db bu mems (if contains bu (pw_uid urec) then set_add mem keep else keep))"

fun trim_groups :: "identity_db \<Rightarrow> table \<Rightarrow> nat list \<Rightarrow> table \<Rightarrow> pyerror + table" where
  "trim_groups db bu [] d = Inr d"
| "trim_groups db bu (gid # gids) d =
     (case map_of d gid of
        None \<Rightarrow> Inl KeyError
      | Some r \<Rightarrow>
          (if length (members r) = 0 then trim_groups db bu gids d
           else (case keep_members db bu (members r) [] of
                   Inl e \<Rightarrow> Inl e
                 | Inr keep \<Rightarrow> trim_groups db bu gids (AList.update gid (r\<lparr>members := keep\<rparr>) d))))"

definition filter_membership :: "identity_db \<Rightarrow> Walker \<Rightarrow> pyerror + Walker" where
  "filter_membership db w =
     (case purge_users (map fst (by_user w)) (by_user w) of
        Inl e \<Rightarrow> Inl e
      | Inr bu \<Rightarrow>
     (case collect_pgrps db (map fst bu) {} of
        Inl e \<Rightarrow> Inl e
      | Inr pg \<Rightarrow>
     (case purge_groups pg (length (by_group w)) (map fst (by_group w)) (by_group w) of
        Inl e \<Rightarrow> Inl e
      | Inr bg \<Rightarrow>
     (case trim_groups db bu (map fst bg) bg of
        Inl e \<Rightarrow> Inl e
      | Inr bg' \<Rightarrow> Inr (w\<lparr>by_user := bu, by_group := bg', pgrps := pg\<rparr>)))))"

section \<open>Walker.build\<close>

fun add_names :: "identity_db \<Rightarrow> stat_fn \<Rightarrow> path \<Rightarrow> FObj \<Rightarrow> string list \<Rightarrow> Walker \<Rightarrow> pyerror + Walker" where
  "add_names db stat root itype [] w = Inr w"
| "add_names db stat root itype (n # ns) w =
     (case add_thing db stat (root @ [n]) itype w of
        Inl e \<Rightarrow> Inl e
      | Inr w' \<Rightarrow> add_names db stat root itype ns w')"

fun build_loop :: "identity_db \<Rightarrow> stat_fn \<Rightarrow> (path \<times> string list \<times> string list) list \<Rightarrow> Walker \<Rightarrow> pyerror + Walker" where
  "build_loop db stat [] w = Inr w"
| "build_loop db stat ((root, ds, fs) # rest) w =
     (case add_names db stat root FILE fs w of
        Inl e \<Rightarrow> Inl e
      | Inr w1 \<Rightarrow>
     (case add_names db stat root DIR ds w1 of
        Inl e \<Rightarrow> Inl e
      | Inr w2 \<Rightarrow> build_loop db stat rest w2))"

definition build :: "identity_db \<Rightarrow> stat_fn \<Rightarrow> fsnode option \<Rightarrow> Walker \<Rightarrow> pyerror + Walker" where
  "build db stat root w =
     (case build_loop db stat (walk_top (top' w) root) w of
        Inl e \<Rightarrow> Inl e
      | Inr w' \<Rightarrow> filter_membership db w')"

section \<open>Walker.report\<close>

text \<open>\<open>str(n)\<close> inside an f-string: the decimal digits of a non-negative integer.\<close>

definition digit :: "nat \<Rightarrow> char" where
  "digit d = ''0123456789'' ! d"

function str :: "nat \<Rightarrow> string" where
  "str n = (if n < 10 then [digit n] else str (n div 10) @ [digit (n mod 10)])"
  by pat_completeness auto
termination
  by (relation "measure (\<lambda>n. n)") auto

declare str.simps [simp del]

text \<open>\<open>sep.join(xs)\<close>.\<close>

fun join :: "string \<Rightarrow> string list \<Rightarrow> string" where
  "join sep [] = []"
| "join sep [x] = x"
| "join sep (x # y # ys) = x @ sep @ join sep (y # ys)"

text \<open>
  Iterating over a \<open>set[str]\<close> visits the names in the order of the hash table, which
  follows the hashes of the strings. Python draws the seed of its string hash anew for
  every process, so the hash \<open>h\<close> is a parameter of a run and not a property of the inputs.
\<close>

definition set_iter :: "(string \<Rightarrow> nat) \<Rightarrow> string list \<Rightarrow> string list" where
  "set_iter h xs = sort_key h xs"

definition passwd_line :: "Ownership \<Rightarrow> string" where
  "passwd_line r = name r @ '':*:'' @ str (id' r) @ '':'' @ str (pgrp r) @ '':::\<newline>''"

definition group_line :: "(string \<Rightarrow> nat) \<Rightarrow> Ownership \<Rightarrow> string" where
  "group_line h r =
     (let mem_name_str = join '','' (set_iter h (members r))
      in name r @ '':*:'' @ str (id' r) @ '':'' @ mem_name_str @ ''\<newline>'')"

fun passwd_text :: "table \<Rightarrow> nat list \<Rightarrow> string \<Rightarrow> pyerror + string" where
  "passwd_text d [] passwd = Inr passwd"
| "passwd_text d (uid # uids) passwd =
     (case map_of d uid of
        None \<Rightarrow> Inl KeyError
      | Some r \<Rightarrow> passwd_text d uids (passwd @ passwd_line r))"

fun group_text :: "(string \<Rightarrow> nat) \<Rightarrow> table \<Rightarrow> nat list \<Rightarrow> string \<Rightarrow> pyerror + string" where
  "group_text h d [] grp = Inr grp"
| "group_text h d (gid # gids) grp =
     (case map_of d gid of
        None \<Rightarrow> Inl KeyError
      | Some r \<Rightarrow> group_text h d gids (grp @ group_line h r))"

text \<open>
  \<open>Path.write_text\<close> in the working directory. The files written so far are a list of
  (file name, content); a write that fails raises \<open>OSError\<close> and adds nothing.
\<close>

type_synonym written = "(string \<times> string) list"

definition write_text :: "(string \<Rightarrow> bool) \<Rightarrow> string \<Rightarrow> string \<Rightarrow> written \<Rightarrow> pyerror option \<times> written" where
  "write_text writable p data out =
     (if writable p then (None, out @ [(p, data)]) else (Some OSError, out))"

text \<open>
  The diagnostic printing under \<open>DEBUG\<close> comes after both writes and changes neither the
  tables nor the files; it is left out.
\<close>

definition report :: "(string \<Rightarrow> bool) \<Rightarrow> (string \<Rightarrow> nat) \<Rightarrow> Walker \<Rightarrow> pyerror option \<times> written" where
  "report writable h w =
     (case passwd_text (by_user w) (sort (map fst (by_user w))) [] of
        Inl e \<Rightarrow> (Some e, [])
      | Inr passwd \<Rightarrow>
     (case group_text h (by_group w) (sort (map fst (by_group w))) [] of
        Inl e \<Rightarrow> (Some e, [])
      | Inr grp \<Rightarrow>
     (case write_text writable ''passwd'' passwd [] of
        (Some e, out) \<Rightarrow> (Some e, out)
      | (None, out) \<Rightarrow> write_text writable ''group'' grp out)))"

section \<open>main\<close>

text \<open>
  The host a run sees: the identity database, \<open>stat\<close>, the tree found at a path (\<open>None\<close>
  when the path does not exist), which files of the working directory can be written,
  and the string hash of the process.
\<close>

record host =
  identity :: identity_db
  stat_of :: stat_fn
  tree_at :: "path \<Rightarrow> fsnode option"
  can_write :: "string \<Rightarrow> bool"
  str_hash :: "string \<Rightarrow> nat"

text \<open>
  \<open>main\<close> returns the exception that ended the run, if any, and the files written. An
  uncaught exception prints a traceback on the error stream and the exit status is 1;
  otherwise the status is 0 and nothing is printed on the error stream.
\<close>

definition main_walker :: "string list \<Rightarrow> Walker" where
  "main_walker argv = (if length argv < 2 then Walker_init [''.''] else Walker_init [argv ! 1])"

definition main :: "host \<Rightarrow> string list \<Rightarrow> pyerror option \<times> written" where
  "main h argv =
     (let wk = main_walker argv
      in (case build (identity h) (stat_of h) (tree_at h (top' wk)) wk of
            Inl e \<Rightarrow> (Some e, [])
          | Inr w \<Rightarrow> report (can_write h) (str_hash h) w))"

definition exit_status :: "pyerror option \<times> written \<Rightarrow> nat" where
  "exit_status r = (case fst r of None \<Rightarrow> 0 | Some e \<Rightarrow> 1)"

section \<open>Example hosts\<close>

text \<open>
  Three users whose primary group is \<open>staff\<close> (20) and a second group \<open>proj\<close> (30).
  The roster of \<open>staff\<close> names all three users.
\<close>

definition ex_alice :: pwent where
  "ex_alice = \<lparr>pw_name = ''alice'', pw_uid = 1000, pw_gid = 20, pw_gecos = ''Alice''\<rparr>"

definition ex_bob :: pwent where
  "ex_bob = \<lparr>pw_name = ''bob'', pw_uid = 1001, pw_gid = 20, pw_gecos = ''Bob''\<rparr>"

definition ex_carol :: pwent where
  "ex_carol = \<lparr>pw_name = ''carol'', pw_uid = 1002, pw_gid = 20, pw_gecos = ''Carol''\<rparr>"

definition ex_staff :: grent where
  "ex_staff = \<lparr>gr_name = ''staff'', gr_gid = 20, gr_mem = [''alice'', ''bob'', ''carol'']\<rparr>"

definition ex_proj :: grent where
  "ex_proj = \<lparr>gr_name = ''proj'', gr_gid = 30, gr_mem = []\<rparr>"

definition ex_db :: identity_db where
  "ex_db =
     \<lparr>getpwuid = (\<lambda>u. if u = 1000 then Some ex_alice else if u = 1001 then Some ex_bob
                       else if u = 1002 then Some ex_carol else None),
      getpwnam = (\<lambda>n. if n = ''alice'' then Some ex_alice else if n = ''bob'' then Some ex_bob
                       else if n = ''carol'' then Some ex_carol else None),
      getgrgid = (\<lambda>g. if g = 20 then Some ex_staff else if g = 30 then Some ex_proj else None)\<rparr>"

text \<open>
  The tree \<open>.\<close> holds a file \<open>f\<close> of alice and an empty directory \<open>d\<close> of bob, both of
  group \<open>proj\<close>.
\<close>

definition ex_tree :: fsnode where
  "ex_tree = Directory [(''f'', Entry Regular), (''d'', Directory [])]"

definition ex_stat :: stat_fn where
  "ex_stat p =
     (if p = [''.'', ''f''] then Inr (1000, 30)
      else if p = [''.'', ''d''] then Inr (1001, 30)
      else Inl FileNotFoundError)"

definition ex_host :: host where
  "ex_host =
     \<lparr>identity = ex_db, stat_of = ex_stat, tree_at = (\<lambda>p. if p = [''.''] then Some ex_tree else None),
      can_write = (\<lambda>p. True), str_hash = length\<rparr>"

definition ex_tree_f :: fsnode where
  "ex_tree_f = Directory [(''f'', Entry Regular)]"

text \<open>The database after alice's primary group has been changed from \<open>staff\<close> to \<open>proj\<close>.\<close>

definition ex_db_moved :: identity_db where
  "ex_db_moved = ex_db\<lparr>getpwuid := (getpwuid ex_db)(1000 := Some (ex_alice\<lparr>pw_gid := 30\<rparr>))\<rparr>"

text \<open>A database whose group file still names carol while the user file has lost her.\<close>

definition ex_db_ghost :: identity_db where
  "ex_db_ghost = ex_db\<lparr>getpwnam := (getpwnam ex_db)(''carol'' := None)\<rparr>"

text \<open>The tables after the traversal of \<open>ex_tree\<close>, before the filter.\<close>

definition ex_aggregated :: Walker where
  "ex_aggregated =
     \<lparr>top' = [''.''],
      by_user =
        [(1000, \<lparr>name = ''alice'', id' = 1000, pgrp = 20, descr = ''Alice'',
                  files = [[''.'', ''f'']], dirs = [], members = []\<rparr>),
         (1001, \<lparr>name = ''bob'', id' = 1001, pgrp = 20, descr = ''Bob'',
                  files = [], dirs = [[''.'', ''d'']], members = []\<rparr>)],
      by_group =
        [(30, \<lparr>name = ''proj'', id' = 30, pgrp = 30, descr = [],
                files = [[''.'', ''f'']], dirs = [[''.'', ''d'']], members = []\<rparr>),
         (20, \<lparr>name = ''staff'', id' = 20, pgrp = 20, descr = [],
                files = [], dirs = [], members = [''alice'', ''bob'', ''carol'']\<rparr>)],
      pgrps = {20}\<rparr>"

text \<open>A tree whose only entry is a symbolic link to something alice owns with group \<open>proj\<close>.\<close>

definition ex_link_tree :: fsnode where
  "ex_link_tree = Directory [(''link'', Entry Symlink)]"

definition ex_link_stat :: stat_fn where
  "ex_link_stat p = (if p = [''.'', ''link''] then Inr (1000, 30) else Inl FileNotFoundError)"

text \<open>A file of alice whose group is her own primary group \<open>staff\<close>.\<close>

definition ex_stat_own :: stat_fn where
  "ex_stat_own p = (if p = [''.'', ''f''] then Inr (1000, 20) else Inl FileNotFoundError)"

text \<open>A file whose owning uid 4242 is not in the identity database.\<close>

definition ex_stat_stranger :: stat_fn where
  "ex_stat_stranger p = (if p = [''.'', ''f''] then Inr (4242, 30) else Inl FileNotFoundError)"

text \<open>The tables after \<open>_add_thing\<close> on the link of \<open>ex_link_tree\<close>.\<close>

definition ex_link_added :: Walker where
  "ex_link_added =
     \<lparr>top' = [''.''],
      by_user = [(1000, \<lparr>name = ''alice'', id' = 1000, pgrp = 20, descr = ''Alice'',
                         files = [[''.'', ''link'']], dirs = [], members = []\<rparr>)],
      by_group = [(30, \<lparr>name = ''proj'', id' = 30, pgrp = 30, descr = [],
                         files = [[''.'', ''link'']], dirs = [], members = []\<rparr>),
                  (20, \<lparr>name = ''staff'', id' = 20, pgrp = 20, descr = [],
                         files = [], dirs = [], members = [''alice'', ''bob'', ''carol'']\<rparr>)],
      pgrps = {20}\<rparr>"

text \<open>The tables of \<open>ex_tree\<close> after the filter: carol, who owns nothing, has left \<open>staff\<close>.\<close>

definition ex_filtered :: Walker where
  "ex_filtered =
     ex_aggregated\<lparr>by_group :=
        [(30, \<lparr>name = ''proj'', id' = 30, pgrp = 30, descr = [],
                files = [[''.'', ''f'']], dirs = [[''.'', ''d'']], members = []\<rparr>),
         (20, \<lparr>name = ''staff'', id' = 20, pgrp = 20, descr = [],
                files = [], dirs = [], members = [''alice'', ''bob'']\<rparr>)]\<rparr>"

text \<open>The tables that \<open>build\<close> returns for \<open>ex_link_tree\<close>.\<close>

definition ex_link_built :: Walker where
  "ex_link_built =
     \<lparr>top' = [''.''],
      by_user = [(1000, \<lparr>name = ''alice'', id' = 1000, pgrp = 20, descr = ''Alice'',
                         files = [[''.'', ''link'']], dirs = [], members = []\<rparr>)],
      by_group = [(30, \<lparr>name = ''proj'', id' = 30, pgrp = 30, descr = [],
                         files = [[''.'', ''link'']], dirs = [], members = []\<rparr>),
                  (20, \<lparr>name = ''staff'', id' = 20, pgrp = 20, descr = [],
                         files = [], dirs = [], members = [''alice'']\<rparr>)],
      pgrps = {20}\<rparr>"

text \<open>
  A host whose tree holds nothing but a symbolic link. The link itself belongs to root,
  which is what \<open>lstat\<close> would report; its target, outside the tree, belongs to alice and
  to \<open>proj\<close>, which is what \<open>stat\<close> reports.
\<close>

definition ex_link_lstat :: stat_fn where
  "ex_link_lstat p = (if p = [''.'', ''link''] then Inr (0, 0) else Inl FileNotFoundError)"

definition ex_link_host :: host where
  "ex_link_host =
     \<lparr>identity = ex_db, stat_of = ex_link_stat,
      tree_at = (\<lambda>p. if p = [''.''] then Some ex_link_tree else None),
      can_write = (\<lambda>p. True), str_hash = length\<rparr>"

section \<open>Notions used in the statements\<close>

text \<open>The record after \<open>files.append(item)\<close> or \<open>dirs.append(item)\<close>.\<close>

definition add_path :: "FObj \<Rightarrow> path \<Rightarrow> Ownership \<Rightarrow> Ownership" where
  "add_path itype item r =
     (if itype = FILE then r\<lparr>files := files r @ [item]\<rparr> else r\<lparr>dirs := dirs r @ [item]\<rparr>)"

text \<open>The paths a record owns, as files or as directories.\<close>

definition owned :: "Ownership \<Rightarrow> path set" where
  "owned r = set (files r) \<union> set (dirs r)"

text \<open>The paths handed to \<open>_add_thing\<close> during the traversal, in order.\<close>

definition things :: "(path \<times> string list \<times> string list) list \<Rightarrow> path list" where
  "things ts = concat (map (\<lambda>(root, ds, fs). map (\<lambda>n. root @ [n]) (fs @ ds)) ts)"

text \<open>\<open>p\<close> lies strictly beneath \<open>t\<close>.\<close>

definition below :: "path \<Rightarrow> path \<Rightarrow> bool" where
  "below t p = (\<exists>q. q \<noteq> [] \<and> p = t @ q)"

text \<open>The tree in which every entry that is not a directory is a regular file.\<close>

fun as_regular :: "fsnode \<Rightarrow> fsnode" where
  "as_regular (Entry k) = Entry Regular"
| "as_regular (Directory es) = Directory (map (\<lambda>e. (fst e, as_regular (snd e))) es)"

text \<open>The user table: every key owns what its record lists, and lists something.\<close>

definition users_own :: "stat_fn \<Rightarrow> path list \<Rightarrow> Walker \<Rightarrow> bool" where
  "users_own stat ps w =
     (\<forall>k r. map_of (by_user w) k = Some r \<longrightarrow>
        owned r \<noteq> {} \<and> (\<forall>p \<in> owned r. p \<in> set ps \<and> (\<exists>g. stat p = Inr (k, g))))"

text \<open>The group table: every key is the owning group of what its record lists.\<close>

definition groups_own :: "stat_fn \<Rightarrow> path list \<Rightarrow> Walker \<Rightarrow> bool" where
  "groups_own stat ps w =
     (\<forall>k r. map_of (by_group w) k = Some r \<longrightarrow>
        (\<forall>p \<in> owned r. p \<in> set ps \<and> (\<exists>u. stat p = Inr (u, k))))"

text \<open>A well-formed table: the keys are distinct, every record carries its key as \<open>id\<close>
  and its member set has no duplicates.\<close>

definition table_ok :: "table \<Rightarrow> bool" where
  "table_ok d =
     (distinct (map fst d) \<and>
      (\<forall>k r. map_of d k = Some r \<longrightarrow> id' r = k \<and> distinct (members r)))"

definition tables_ok :: "Walker \<Rightarrow> bool" where
  "tables_ok w = (table_ok (by_user w) \<and> table_ok (by_group w))"

text \<open>The records of a table in the order of \<open>sorted(list(d.keys()))\<close>.\<close>

definition records_by_id :: "table \<Rightarrow> Ownership list" where
  "records_by_id d = map (\<lambda>k. the (map_of d k)) (sort (map fst d))"

text \<open>The entries strictly beneath a directory, each with its path.\<close>

fun entries :: "path \<Rightarrow> fsnode \<Rightarrow> (path \<times> fsnode) list" where
  "entries p (Entry k) = []"
| "entries p (Directory es) =
     concat (map (\<lambda>e. (p @ [fst e], snd e) # entries (p @ [fst e]) (snd e)) es)"

definition entries_top :: "path \<Rightarrow> fsnode option \<Rightarrow> (path \<times> fsnode) list" where
  "entries_top p root = (case root of None \<Rightarrow> [] | Some t \<Rightarrow> entries p t)"

text \<open>The calls of \<open>_add_thing\<close> that \<open>build\<close> makes for the triples of a traversal, in order.\<close>

definition calls :: "(path \<times> string list \<times> string list) list \<Rightarrow> (path \<times> FObj) list" where
  "calls ts =
     concat (map (\<lambda>(root, ds, fs).
                    map (\<lambda>n. (root @ [n], FILE)) fs @ map (\<lambda>n. (root @ [n], DIR)) ds) ts)"

fun add_all :: "identity_db \<Rightarrow> stat_fn \<Rightarrow> (path \<times> FObj) list \<Rightarrow> Walker \<Rightarrow> pyerror + Walker" where
  "add_all db stat [] w = Inr w"
| "add_all db stat (c # cs) w =
     (case add_thing db stat (fst c) (snd c) w of
        Inl e \<Rightarrow> Inl e
      | Inr w' \<Rightarrow> add_all db stat cs w')"

text \<open>\<open>stat\<close> raised \<open>FileNotFoundError\<close> or \<open>PermissionError\<close>: \<open>_add_thing\<close> returns at once.\<close>

definition skipped :: "stat_fn \<Rightarrow> path \<Rightarrow> bool" where
  "skipped stat item = (stat item = Inl FileNotFoundError \<or> stat item = Inl PermissionError)"

text \<open>Reading the artifacts back: the number a string of decimal digits denotes.\<close>

definition digit_value :: "char \<Rightarrow> nat" where
  "digit_value c = length (takeWhile (\<lambda>d. d \<noteq> c) ''0123456789'')"

definition nat_of_decimal :: "string \<Rightarrow> nat" where
  "nat_of_decimal s = foldl (\<lambda>a c. 10 * a + digit_value c) 0 s"

text \<open>The pieces of a string between the occurrences of a separator, as \<open>s.split(c)\<close>.\<close>

fun split_on :: "char \<Rightarrow> string \<Rightarrow> string list" where
  "split_on c [] = [[]]"
| "split_on c (x # xs) =
     (if x = c then [] # split_on c xs
      else (case split_on c xs of [] \<Rightarrow> [[x]] | l # ls \<Rightarrow> (x # l) # ls))"

text \<open>The lines of a text in which every line ends with a newline.\<close>

definition lines_of :: "string \<Rightarrow> string list" where
  "lines_of s = butlast (split_on CHR ''\<newline>'' s)"

text \<open>The numeric id printed on a line: its third field between colons.\<close>

definition line_id :: "string \<Rightarrow> nat" where
  "line_id l = nat_of_decimal (split_on CHR '':'' l ! 2)"

text \<open>
  The names of the identity database can be written on a line: user and group names hold
  neither a colon nor a newline, member names hold no newline.
\<close>

definition clean_db :: "identity_db \<Rightarrow> bool" where
  "clean_db db =
     ((\<forall>u pw. getpwuid db u = Some pw \<longrightarrow>
          CHR '':'' \<notin> set (pw_name pw) \<and> CHR ''\<newline>'' \<notin> set (pw_name pw)) \<and>
      (\<forall>g gr. getgrgid db g = Some gr \<longrightarrow>
          CHR '':'' \<notin> set (gr_name gr) \<and> CHR ''\<newline>'' \<notin> set (gr_name gr) \<and>
          (\<forall>m \<in> set (gr_mem gr). CHR ''\<newline>'' \<notin> set m)))"

text \<open>The records carry what the identity database says about their keys.\<close>

definition names_ok :: "identity_db \<Rightarrow> Walker \<Rightarrow> bool" where
  "names_ok db w =
     ((\<forall>k r. map_of (by_user w) k = Some r \<longrightarrow>
          (\<exists>pw. getpwuid db k = Some pw \<and> name r = pw_name pw \<and> pgrp r = pw_gid pw)) \<and>
      (\<forall>k r. map_of (by_group w) k = Some r \<longrightarrow>
          (\<exists>gr. getgrgid db k = Some gr \<and> name r = gr_name gr \<and>
                set (members r) \<subseteq> set (gr_mem gr))))"

section \<open>Unfolding the model\<close>

lemmas ex_defs =
  ex_alice_def ex_bob_def ex_carol_def ex_staff_def ex_proj_def ex_db_def ex_tree_def
  ex_stat_def ex_host_def ex_tree_f_def ex_db_moved_def ex_db_ghost_def ex_aggregated_def
  ex_link_tree_def ex_link_stat_def ex_stat_own_def ex_stat_stranger_def ex_link_added_def
  ex_filtered_def ex_link_built_def ex_link_lstat_def ex_link_host_def

lemmas model_defs =
  main_def main_walker_def Walker_init_def build_def walk_top_def dirnames_def filenames_def
  add_thing_def contains_def new_record_def append_item_def set_add_def filter_membership_def
  report_def passwd_line_def group_line_def set_iter_def write_text_def str.simps digit_def
  exit_status_def

section \<open>Facts about \<open>_add_thing\<close>\<close>

lemma map_of_append_item:
  "map_of (append_item itype item k d) =
     (case map_of d k of None \<Rightarrow> map_of d | Some r \<Rightarrow> (map_of d)(k \<mapsto> add_path itype item r))"
  by (simp add: append_item_def add_path_def update_conv' split: option.splits)

lemma keys_append_item: "map fst (append_item itype item k d) = map fst d"
proof (cases "map_of d k")
  case None
  then show ?thesis by (simp add: append_item_def)
next
  case (Some r)
  then have "k \<in> set (map fst d)"
    by (metis map_of_eq_None_iff option.distinct(1) set_map)
  with Some show ?thesis by (simp add: append_item_def update_keys)
qed

lemma add_thing_skip:
  "stat item = Inl FileNotFoundError \<or> stat item = Inl PermissionError \<Longrightarrow>
   add_thing db stat item itype w = Inr w"
  by (auto simp: add_thing_def)

lemma add_thing_top: "add_thing db stat item itype w = Inr w' \<Longrightarrow> top' w' = top' w"
  by (auto simp: add_thing_def Let_def split: sum.splits option.splits if_splits prod.splits)

lemma add_thing_user_rec:
  assumes "add_thing db stat item itype w = Inr w'" and "map_of (by_user w') k = Some r'"
  shows "map_of (by_user w) k = Some r' \<or>
         (\<exists>g pw r. stat item = Inr (k, g) \<and> getpwuid db k = Some pw \<and>
            (map_of (by_user w) k = Some r \<or>
             map_of (by_user w) k = None \<and> r = new_record (pw_name pw) k (pw_gid pw) (pw_gecos pw)) \<and>
            r' = add_path itype item r)"
  using assms
  by (auto simp: add_thing_def Let_def contains_def map_of_append_item update_conv'
           split: sum.splits option.splits if_splits prod.splits)

lemma add_thing_group_rec:
  assumes "add_thing db stat item itype w = Inr w'" and "map_of (by_group w') k = Some r'"
  shows "map_of (by_group w) k = Some r' \<or>
         (\<exists>u gr r. stat item = Inr (u, k) \<and> getgrgid db k = Some gr \<and>
            (map_of (by_group w) k = Some r \<or>
             map_of (by_group w) k = None \<and> r = new_record (gr_name gr) k k []) \<and>
            r' = add_path itype item r) \<or>
         (\<exists>u g pw grpdef. stat item = Inr (u, g) \<and> g \<noteq> k \<and> getpwuid db u = Some pw \<and>
            pw_gid pw = k \<and> map_of (by_group w) k = None \<and> getgrgid db k = Some grpdef \<and>
            r' = (new_record (gr_name grpdef) k k [])\<lparr>members := fold set_add (gr_mem grpdef) []\<rparr>)"
  using assms
  by (auto simp: add_thing_def Let_def contains_def map_of_append_item update_conv'
           split: sum.splits option.splits if_splits prod.splits)

lemma add_thing_distinct_users:
  assumes "add_thing db stat item itype w = Inr w'" and "distinct (map fst (by_user w))"
  shows "distinct (map fst (by_user w'))"
  using assms
  by (auto simp: add_thing_def Let_def keys_append_item distinct_update
           split: sum.splits option.splits if_splits prod.splits)

lemma add_thing_distinct_groups:
  assumes "add_thing db stat item itype w = Inr w'" and "distinct (map fst (by_group w))"
  shows "distinct (map fst (by_group w'))"
  using assms
  by (auto simp: add_thing_def Let_def keys_append_item distinct_update
           split: sum.splits option.splits if_splits prod.splits)

section \<open>Facts about \<open>_filter_membership\<close>\<close>

lemma purge_users_sub:
  "purge_users uids d = Inr d' \<Longrightarrow> map_of d' k = Some r \<Longrightarrow> map_of d k = Some r"
proof (induction uids arbitrary: d)
  case Nil
  then show ?case by simp
next
  case (Cons uid uids)
  from Cons.prems(1) obtain r0 where r0: "map_of d uid = Some r0"
    by (auto split: option.splits)
  let ?d = "if length (files r0) = 0 \<and> length (dirs r0) = 0 then AList.delete uid d else d"
  from Cons.prems(1) r0 have "purge_users uids ?d = Inr d'" by simp
  from Cons.IH [OF this Cons.prems(2)] have "map_of ?d k = Some r" .
  then show ?case
    by (auto simp: delete_conv' split: if_splits)
qed

lemma purge_users_owning:
  "purge_users uids d = Inr d' \<Longrightarrow> k \<in> set uids \<Longrightarrow> map_of d' k = Some r \<Longrightarrow>
   files r \<noteq> [] \<or> dirs r \<noteq> []"
proof (induction uids arbitrary: d)
  case Nil
  then show ?case by simp
next
  case (Cons uid uids)
  from Cons.prems(1) obtain r0 where r0: "map_of d uid = Some r0"
    by (auto split: option.splits)
  let ?d = "if length (files r0) = 0 \<and> length (dirs r0) = 0 then AList.delete uid d else d"
  from Cons.prems(1) r0 have rec: "purge_users uids ?d = Inr d'" by simp
  show ?case
  proof (cases "k = uid")
    case True
    from purge_users_sub [OF rec Cons.prems(3)] have "map_of ?d k = Some r" .
    with True r0 show ?thesis
      by (auto simp: delete_conv' split: if_splits)
  next
    case False
    with Cons.prems(2) have "k \<in> set uids" by simp
    from Cons.IH [OF rec this Cons.prems(3)] show ?thesis .
  qed
qed

lemma purge_users_distinct:
  "purge_users uids d = Inr d' \<Longrightarrow> distinct (map fst d) \<Longrightarrow> distinct (map fst d')"
proof (induction uids arbitrary: d)
  case Nil
  then show ?case by simp
next
  case (Cons uid uids)
  from Cons.prems(1) obtain r0 where r0: "map_of d uid = Some r0"
    by (auto split: option.splits)
  let ?d = "if length (files r0) = 0 \<and> length (dirs r0) = 0 then AList.delete uid d else d"
  from Cons.prems(1) r0 have rec: "purge_users uids ?d = Inr d'" by simp
  from Cons.prems(2) have "distinct (map fst ?d)" by (simp add: distinct_delete)
  from Cons.IH [OF rec this] show ?case .
qed

lemma purge_groups_used:
  "purge_groups pg used gids d = Inr d' \<Longrightarrow> length d = used"
  by (cases gids) (auto split: if_splits)

lemma length_delete_less:
  "map_of d k = Some r \<Longrightarrow> length (AList.delete k d) < length d"
  by (induction d) (auto simp: AList.delete_eq less_Suc_eq_le split: if_splits)

lemma purge_groups_same:
  "purge_groups pg used gids d = Inr d' \<Longrightarrow> d' = d"
proof (induction gids arbitrary: d)
  case Nil
  then show ?case by (simp split: if_splits)
next
  case (Cons gid gids)
  from Cons.prems have len: "length d = used" by (rule purge_groups_used)
  from Cons.prems len obtain r where r: "map_of d gid = Some r"
    by (auto split: option.splits)
  let ?dead = "\<not> (length (files r) > 0 \<or> length (dirs r) > 0 \<or> gid \<in> pg)"
  from Cons.prems len r
  have rec: "purge_groups pg used gids (if ?dead then AList.delete gid d else d) = Inr d'"
    by simp
  show ?case
  proof (cases ?dead)
    case True
    with rec have "purge_groups pg used gids (AList.delete gid d) = Inr d'" by (auto split: if_splits)
    then have "length (AList.delete gid d) = used" by (rule purge_groups_used)
    with length_delete_less [OF r] len show ?thesis by simp
  next
    case False
    with rec have "purge_groups pg used gids d = Inr d'" by (auto split: if_splits)
    then show ?thesis by (rule Cons.IH)
  qed
qed

lemma purge_groups_alive:
  "purge_groups pg used gids d = Inr d' \<Longrightarrow> gid \<in> set gids \<Longrightarrow>
   \<exists>r. map_of d gid = Some r \<and> (files r \<noteq> [] \<or> dirs r \<noteq> [] \<or> gid \<in> pg)"
proof (induction gids arbitrary: d)
  case Nil
  then show ?case by simp
next
  case (Cons g gids)
  from Cons.prems(1) have len: "length d = used" by (rule purge_groups_used)
  from Cons.prems(1) len obtain r where r: "map_of d g = Some r"
    by (auto split: option.splits)
  let ?dead = "\<not> (length (files r) > 0 \<or> length (dirs r) > 0 \<or> g \<in> pg)"
  from Cons.prems(1) len r
  have rec: "purge_groups pg used gids (if ?dead then AList.delete g d else d) = Inr d'"
    by simp
  have alive: "\<not> ?dead"
  proof
    assume dead: ?dead
    with rec have "purge_groups pg used gids (AList.delete g d) = Inr d'" by (auto split: if_splits)
    then have "length (AList.delete g d) = used" by (rule purge_groups_used)
    with length_delete_less [OF r] len show False by simp
  qed
  with rec have rec': "purge_groups pg used gids d = Inr d'" by (auto split: if_splits)
  show ?case
  proof (cases "gid = g")
    case True
    with r alive show ?thesis by auto
  next
    case False
    with Cons.prems(2) have "gid \<in> set gids" by simp
    from Cons.IH [OF rec' this] show ?thesis .
  qed
qed

lemma purge_groups_dead:
  assumes "length d = used" and "map_of d gid = Some r" and "gid \<in> set gids"
    and "files r = []" and "dirs r = []" and "gid \<notin> pg"
  shows "\<exists>e. purge_groups pg used gids d = Inl e"
proof (cases "purge_groups pg used gids d")
  case (Inl e)
  then show ?thesis by blast
next
  case (Inr d')
  from purge_groups_alive [OF Inr assms(3)] assms(2,4,5,6) show ?thesis by auto
qed

lemma keep_members_error:
  "keep_members db bu mems keep = Inl e \<Longrightarrow> e = KeyError"
  by (induction mems arbitrary: keep) (auto split: option.splits)

lemma keep_members_unresolved:
  "mem \<in> set mems \<Longrightarrow> getpwnam db mem = None \<Longrightarrow> keep_members db bu mems keep = Inl KeyError"
  by (induction mems arbitrary: keep) (auto split: option.splits)

lemma trim_groups_unresolved:
  "gid \<in> set gids \<Longrightarrow> map_of d gid = Some r \<Longrightarrow> mem \<in> set (members r) \<Longrightarrow>
   getpwnam db mem = None \<Longrightarrow> trim_groups db bu gids d = Inl KeyError"
proof (induction gids arbitrary: d)
  case Nil
  then show ?case by simp
next
  case (Cons g gids)
  show ?case
  proof (cases "g = gid")
    case True
    from Cons.prems(3) have ne: "members r \<noteq> []" by auto
    from keep_members_unresolved [OF Cons.prems(3,4)]
    have "keep_members db bu (members r) [] = Inl KeyError" .
    with True Cons.prems(2) ne show ?thesis by simp
  next
    case False
    with Cons.prems(1) have in_rest: "gid \<in> set gids" by simp
    show ?thesis
    proof (cases "map_of d g")
      case None
      then show ?thesis by simp
    next
      case (Some r')
      show ?thesis
      proof (cases "length (members r') = 0")
        case True
        with Some Cons.IH [OF in_rest Cons.prems(2,3,4)] show ?thesis by simp
      next
        case nonempty: False
        show ?thesis
        proof (cases "keep_members db bu (members r') []")
          case (Inl e)
          with keep_members_error [OF Inl] Some nonempty show ?thesis by simp
        next
          case (Inr keep)
          from False Cons.prems(2)
          have "map_of (AList.update g (r'\<lparr>members := keep\<rparr>) d) gid = Some r"
            by (simp add: update_conv')
          from Cons.IH [OF in_rest this Cons.prems(3,4)] Some nonempty Inr
          show ?thesis by simp
        qed
      qed
    qed
  qed
qed

section \<open>Facts about \<open>report\<close> and \<open>main\<close>\<close>


lemma top_main_walker: "main_walker argv = Walker_init (top' (main_walker argv))"
  by (simp add: main_walker_def Walker_init_def)


lemma report_written:
  "map fst (snd (report wr hs w)) = [] \<or>
   map fst (snd (report wr hs w)) = [''passwd''] \<or>
   map fst (snd (report wr hs w)) = [''passwd'', ''group'']"
  by (auto simp: report_def write_text_def split: sum.splits)

lemma report_success:
  "fst (report wr hs w) = None \<Longrightarrow> map fst (snd (report wr hs w)) = [''passwd'', ''group'']"
  by (auto simp: report_def write_text_def split: sum.splits if_splits)

section \<open>Facts about \<open>build\<close>\<close>

lemma add_names_inv:
  assumes "add_names db stat root itype ns w = Inr w'" and "I w"
    and "\<And>n v v'. n \<in> set ns \<Longrightarrow> I v \<Longrightarrow> add_thing db stat (root @ [n]) itype v = Inr v' \<Longrightarrow> I v'"
  shows "I w'"
  using assms
proof (induction ns arbitrary: w)
  case Nil
  then show ?case by simp
next
  case (Cons n ns)
  from Cons.prems(1) obtain w1 where 1: "add_thing db stat (root @ [n]) itype w = Inr w1"
    and 2: "add_names db stat root itype ns w1 = Inr w'"
    by (auto split: sum.splits)
  have "n \<in> set (n # ns)" by simp
  from Cons.prems(3) [OF this Cons.prems(2) 1] have w1: "I w1" .
  show ?case
  proof (rule Cons.IH [OF 2 w1])
    fix m v v'
    assume m: "m \<in> set ns" and v: "I v" and a: "add_thing db stat (root @ [m]) itype v = Inr v'"
    from m have "m \<in> set (n # ns)" by simp
    from Cons.prems(3) [OF this v a] show "I v'" .
  qed
qed

lemma things_Cons:
  "things ((root, ds, fs) # ts) = map (\<lambda>n. root @ [n]) (fs @ ds) @ things ts"
  by (simp add: things_def)

lemma build_loop_inv:
  assumes "build_loop db stat ts w = Inr w'" and "I w"
    and "\<And>item itype v v'. item \<in> set (things ts) \<Longrightarrow> I v \<Longrightarrow>
           add_thing db stat item itype v = Inr v' \<Longrightarrow> I v'"
  shows "I w'"
  using assms
proof (induction ts arbitrary: w)
  case Nil
  then show ?case by simp
next
  case (Cons tr ts)
  obtain root ds fs where tr: "tr = (root, ds, fs)" by (cases tr) auto
  from Cons.prems(1) tr obtain w1 w2 where
    1: "add_names db stat root FILE fs w = Inr w1" and
    2: "add_names db stat root DIR ds w1 = Inr w2" and
    3: "build_loop db stat ts w2 = Inr w'"
    by (auto split: sum.splits)
  have step: "I v'" if "item \<in> set (things (tr # ts))" "I v" "add_thing db stat item itype v = Inr v'"
    for item itype v v'
    using Cons.prems(3) that by blast
  have "I w1"
    by (rule add_names_inv [where I = I, OF 1 Cons.prems(2)]) (rule step, auto simp: tr things_Cons)
  then have "I w2"
    by (rule add_names_inv [where I = I, OF 2]) (rule step, auto simp: tr things_Cons)
  show ?case
  proof (rule Cons.IH [OF 3 \<open>I w2\<close>])
    fix item itype v v'
    assume "item \<in> set (things ts)" and v: "I v" and a: "add_thing db stat item itype v = Inr v'"
    then have "item \<in> set (things (tr # ts))" by (simp add: tr things_Cons)
    from step [OF this v a] show "I v'" .
  qed
qed

lemma walk_root_prefix:
  "(root, ds, fs) \<in> set (walk p t) \<Longrightarrow> \<exists>q. root = p @ q"
proof (induction p t arbitrary: root ds fs rule: walk.induct)
  case (1 p k)
  then show ?case by simp
next
  case (2 p es)
  from "2.prems" consider
    (sub) e where "e \<in> set es" "is_dir (snd e)" "(root, ds, fs) \<in> set (walk (p @ [fst e]) (snd e))"
    | (own) "root = p"
    by auto
  then show ?case
  proof cases
    case sub
    from "2.IH" [of e, OF _ sub(3)] sub(1,2) obtain q where "root = (p @ [fst e]) @ q" by auto
    then show ?thesis by simp
  next
    case own
    then show ?thesis by simp
  qed
qed

lemma things_below:
  "item \<in> set (things (walk_top t root)) \<Longrightarrow> below t item"
proof -
  assume a: "item \<in> set (things (walk_top t root))"
  then obtain r ds fs n where "(r, ds, fs) \<in> set (walk_top t root)" and item: "item = r @ [n]"
    by (auto simp: things_def)
  then obtain tr where "(r, ds, fs) \<in> set (walk t tr)"
    by (auto simp: walk_top_def split: option.splits)
  from walk_root_prefix [OF this] obtain q where "r = t @ q" by blast
  with item have "item = t @ (q @ [n])" by simp
  then show ?thesis unfolding below_def by blast
qed

lemma below_neq: "below t p \<Longrightarrow> p \<noteq> t"
  by (auto simp: below_def)

lemma add_thing_cong_stat:
  "stat item = stat2 item \<Longrightarrow> add_thing db stat item itype w = add_thing db stat2 item itype w"
  by (simp add: add_thing_def)

lemma add_names_cong_stat:
  "(\<And>n. n \<in> set ns \<Longrightarrow> stat (root @ [n]) = stat2 (root @ [n])) \<Longrightarrow>
   add_names db stat root itype ns w = add_names db stat2 root itype ns w"
proof (induction ns arbitrary: w)
  case Nil
  then show ?case by simp
next
  case (Cons n ns)
  have "add_thing db stat (root @ [n]) itype w = add_thing db stat2 (root @ [n]) itype w"
    by (rule add_thing_cong_stat) (simp add: Cons.prems)
  moreover have "add_names db stat root itype ns v = add_names db stat2 root itype ns v" for v
    by (rule Cons.IH) (simp add: Cons.prems)
  ultimately show ?case by (simp split: sum.splits)
qed

lemma build_loop_cong_stat:
  "(\<And>item. item \<in> set (things ts) \<Longrightarrow> stat item = stat2 item) \<Longrightarrow>
   build_loop db stat ts w = build_loop db stat2 ts w"
proof (induction ts arbitrary: w)
  case Nil
  then show ?case by simp
next
  case (Cons tr ts)
  obtain root ds fs where tr: "tr = (root, ds, fs)" by (cases tr) auto
  have f: "add_names db stat root FILE fs v = add_names db stat2 root FILE fs v" for v
    by (rule add_names_cong_stat) (rule Cons.prems, simp add: tr things_Cons)
  have d: "add_names db stat root DIR ds v = add_names db stat2 root DIR ds v" for v
    by (rule add_names_cong_stat) (rule Cons.prems, simp add: tr things_Cons)
  have r: "build_loop db stat ts v = build_loop db stat2 ts v" for v
    by (rule Cons.IH) (rule Cons.prems, simp add: tr things_Cons)
  show ?case by (simp add: tr f d r split: sum.splits)
qed

lemma is_dir_as_regular: "is_dir (as_regular t) = is_dir t"
  by (cases t) simp_all

lemma walk_as_regular: "walk p (as_regular t) = walk p t"
proof (induction p t rule: walk.induct)
  case (1 p k)
  then show ?case by simp
next
  case (2 p es)
  have d: "dirnames (map (\<lambda>e. (fst e, as_regular (snd e))) es) = dirnames es"
    by (simp add: dirnames_def filter_map o_def is_dir_as_regular)
  have f: "filenames (map (\<lambda>e. (fst e, as_regular (snd e))) es) = filenames es"
    by (simp add: filenames_def filter_map o_def is_dir_as_regular)
  have s: "map (\<lambda>e. walk (p @ [fst e]) (snd e))
             (filter (\<lambda>e. is_dir (snd e)) (map (\<lambda>e. (fst e, as_regular (snd e))) es))
         = map (\<lambda>e. walk (p @ [fst e]) (snd e)) (filter (\<lambda>e. is_dir (snd e)) es)"
    using "2.IH" by (simp add: filter_map o_def is_dir_as_regular cong: map_cong)
  show ?case by (simp add: d f s)
qed

section \<open>What the tables record\<close>

lemma owned_add_path: "owned (add_path itype item r) = insert item (owned r)"
  by (auto simp: owned_def add_path_def)

lemma owned_new_record [simp]: "owned (new_record n i g d) = {}"
  by (simp add: owned_def new_record_def)

lemma owned_members_update [simp]: "owned (r\<lparr>members := ms\<rparr>) = owned r"
  by (simp add: owned_def)

lemma add_thing_user_owned:
  assumes "add_thing db stat item itype w = Inr w'" and "map_of (by_user w') k = Some r'"
    and "p \<in> owned r'"
  shows "(\<exists>r. map_of (by_user w) k = Some r \<and> p \<in> owned r) \<or> (p = item \<and> (\<exists>g. stat item = Inr (k, g)))"
  using add_thing_user_rec [OF assms(1,2)] assms(3)
  by (auto simp: owned_add_path)

lemma add_thing_group_owned:
  assumes "add_thing db stat item itype w = Inr w'" and "map_of (by_group w') k = Some r'"
    and "p \<in> owned r'"
  shows "(\<exists>r. map_of (by_group w) k = Some r \<and> p \<in> owned r) \<or> (p = item \<and> (\<exists>u. stat item = Inr (u, k)))"
  using add_thing_group_rec [OF assms(1,2)] assms(3)
  by (auto simp: owned_add_path)

lemma add_thing_records:
  assumes "add_thing db stat item itype w = Inr w'" and "stat item = Inr (uid, gid)"
  shows "\<exists>r g. map_of (by_user w') uid = Some r \<and> item \<in> owned r \<and>
               map_of (by_group w') gid = Some g \<and> item \<in> owned g \<and>
               (itype = FILE \<longrightarrow> item \<in> set (files r) \<and> item \<in> set (files g))"
  using assms
  by (auto simp: add_thing_def Let_def contains_def map_of_append_item update_conv' owned_def add_path_def
           split: sum.splits option.splits if_splits prod.splits)

lemma users_own_step:
  assumes "item \<in> set ps" and "users_own stat ps w" and "add_thing db stat item itype w = Inr w'"
  shows "users_own stat ps w'"
  unfolding users_own_def
proof (intro allI impI conjI ballI)
  fix k r' assume r': "map_of (by_user w') k = Some r'"
  from add_thing_user_rec [OF assms(3) r'] assms(2)
  show "owned r' \<noteq> {}"
    by (auto simp: users_own_def owned_add_path)
next
  fix k r' p assume r': "map_of (by_user w') k = Some r'" and p: "p \<in> owned r'"
  from add_thing_user_owned [OF assms(3) r' p] assms(1,2)
  show "p \<in> set ps"
    by (auto simp: users_own_def)
next
  fix k r' p assume r': "map_of (by_user w') k = Some r'" and p: "p \<in> owned r'"
  from add_thing_user_owned [OF assms(3) r' p] assms(1,2)
  show "\<exists>g. stat p = Inr (k, g)"
    by (auto simp: users_own_def)
qed

lemma groups_own_step:
  assumes "item \<in> set ps" and "groups_own stat ps w" and "add_thing db stat item itype w = Inr w'"
  shows "groups_own stat ps w'"
  unfolding groups_own_def
proof (intro allI impI conjI ballI)
  fix k r' p assume r': "map_of (by_group w') k = Some r'" and p: "p \<in> owned r'"
  from add_thing_group_owned [OF assms(3) r' p] assms(1,2)
  show "p \<in> set ps"
    by (auto simp: groups_own_def)
next
  fix k r' p assume r': "map_of (by_group w') k = Some r'" and p: "p \<in> owned r'"
  from add_thing_group_owned [OF assms(3) r' p] assms(1,2)
  show "\<exists>u. stat p = Inr (u, k)"
    by (auto simp: groups_own_def)
qed

lemma build_loop_users_own:
  assumes "build_loop db stat ts (Walker_init t) = Inr w"
  shows "users_own stat (things ts) w"
proof (rule build_loop_inv [where I = "users_own stat (things ts)", OF assms])
  show "users_own stat (things ts) (Walker_init t)"
    by (simp add: users_own_def Walker_init_def)
next
  fix item itype v v'
  assume "item \<in> set (things ts)" "users_own stat (things ts) v" "add_thing db stat item itype v = Inr v'"
  then show "users_own stat (things ts) v'" by (rule users_own_step)
qed

lemma build_loop_groups_own:
  assumes "build_loop db stat ts (Walker_init t) = Inr w"
  shows "groups_own stat (things ts) w"
proof (rule build_loop_inv [where I = "groups_own stat (things ts)", OF assms])
  show "groups_own stat (things ts) (Walker_init t)"
    by (simp add: groups_own_def Walker_init_def)
next
  fix item itype v v'
  assume "item \<in> set (things ts)" "groups_own stat (things ts) v" "add_thing db stat item itype v = Inr v'"
  then show "groups_own stat (things ts) v'" by (rule groups_own_step)
qed

section \<open>What the filter leaves\<close>

lemma map_of_Some_key: "map_of d k = Some r \<Longrightarrow> k \<in> set (map fst d)"
  by (metis map_of_eq_None_iff option.distinct(1) set_map)

lemma trim_groups_keys:
  "trim_groups db bu gids d = Inr d' \<Longrightarrow> map fst d' = map fst d"
proof (induction gids arbitrary: d)
  case Nil
  then show ?case by simp
next
  case (Cons g gids)
  from Cons.prems obtain r where r: "map_of d g = Some r"
    by (auto split: option.splits)
  then have g: "g \<in> set (map fst d)" by (rule map_of_Some_key)
  show ?case
  proof (cases "length (members r) = 0")
    case True
    with Cons.prems r have "trim_groups db bu gids d = Inr d'" by simp
    then show ?thesis by (rule Cons.IH)
  next
    case False
    with Cons.prems r obtain keep where
      "trim_groups db bu gids (AList.update g (r\<lparr>members := keep\<rparr>) d) = Inr d'"
      by (auto split: sum.splits)
    from Cons.IH [OF this] g show ?thesis by (simp add: update_keys)
  qed
qed

lemma trim_groups_rec:
  "trim_groups db bu gids d = Inr d' \<Longrightarrow> map_of d' k = Some r' \<Longrightarrow>
   \<exists>r ms. map_of d k = Some r \<and> r' = r\<lparr>members := ms\<rparr>"
proof (induction gids arbitrary: d)
  case Nil
  then have "map_of d k = Some r'" by simp
  moreover have "r' = r'\<lparr>members := members r'\<rparr>" by simp
  ultimately show ?case by blast
next
  case (Cons g gids)
  from Cons.prems(1) obtain r where r: "map_of d g = Some r"
    by (auto split: option.splits)
  show ?case
  proof (cases "length (members r) = 0")
    case True
    with Cons.prems(1) r have "trim_groups db bu gids d = Inr d'" by simp
    from Cons.IH [OF this Cons.prems(2)] show ?thesis .
  next
    case False
    with Cons.prems(1) r obtain keep where
      "trim_groups db bu gids (AList.update g (r\<lparr>members := keep\<rparr>) d) = Inr d'"
      by (auto split: sum.splits)
    from Cons.IH [OF this Cons.prems(2)] obtain r0 ms where
      r0: "map_of (AList.update g (r\<lparr>members := keep\<rparr>) d) k = Some r0" and r': "r' = r0\<lparr>members := ms\<rparr>"
      by blast
    show ?thesis
    proof (cases "k = g")
      case True
      with r0 have "r0 = r\<lparr>members := keep\<rparr>" by (simp add: update_conv')
      with r' have "r' = r\<lparr>members := ms\<rparr>" by simp
      with True r show ?thesis by blast
    next
      case False
      with r0 have "map_of d k = Some r0" by (simp add: update_conv')
      with r' show ?thesis by blast
    qed
  qed
qed

lemma filter_membership_Inr:
  assumes "filter_membership db w = Inr w'"
  obtains bu pg bg' where
    "purge_users (map fst (by_user w)) (by_user w) = Inr bu"
    "collect_pgrps db (map fst bu) {} = Inr pg"
    "purge_groups pg (length (by_group w)) (map fst (by_group w)) (by_group w) = Inr (by_group w)"
    "trim_groups db bu (map fst (by_group w)) (by_group w) = Inr bg'"
    "w' = w\<lparr>by_user := bu, by_group := bg', pgrps := pg\<rparr>"
proof -
  from assms obtain bu pg bg bg' where
    a: "purge_users (map fst (by_user w)) (by_user w) = Inr bu" and
    b: "collect_pgrps db (map fst bu) {} = Inr pg" and
    c: "purge_groups pg (length (by_group w)) (map fst (by_group w)) (by_group w) = Inr bg" and
    d: "trim_groups db bu (map fst bg) bg = Inr bg'" and
    e: "w' = w\<lparr>by_user := bu, by_group := bg', pgrps := pg\<rparr>"
    by (auto simp: filter_membership_def split: sum.splits)
  from c have "bg = by_group w" by (rule purge_groups_same)
  with a b c d e that show ?thesis by simp
qed

lemma filter_membership_user:
  assumes "filter_membership db w = Inr w'" and "map_of (by_user w') k = Some r"
  shows "map_of (by_user w) k = Some r \<and> (files r \<noteq> [] \<or> dirs r \<noteq> [])"
proof -
  from assms(1) obtain bu pg bg' where
    a: "purge_users (map fst (by_user w)) (by_user w) = Inr bu" and
    e: "w' = w\<lparr>by_user := bu, by_group := bg', pgrps := pg\<rparr>"
    by (rule filter_membership_Inr)
  from e assms(2) have r: "map_of bu k = Some r" by simp
  from purge_users_sub [OF a r] have old: "map_of (by_user w) k = Some r" .
  then have "k \<in> set (map fst (by_user w))" by (rule map_of_Some_key)
  from purge_users_owning [OF a this r] old show ?thesis by simp
qed

lemma filter_membership_group:
  assumes "filter_membership db w = Inr w'" and "map_of (by_group w') k = Some r'"
  shows "\<exists>r ms. map_of (by_group w) k = Some r \<and> r' = r\<lparr>members := ms\<rparr>"
proof -
  from assms(1) obtain bu pg bg' where
    d: "trim_groups db bu (map fst (by_group w)) (by_group w) = Inr bg'" and
    e: "w' = w\<lparr>by_user := bu, by_group := bg', pgrps := pg\<rparr>"
    by (rule filter_membership_Inr)
  from e assms(2) have "map_of bg' k = Some r'" by simp
  from trim_groups_rec [OF d this] show ?thesis .
qed

text \<open>Whenever the filter completes, it has removed no group record.\<close>

lemma filter_membership_group_keys:
  assumes "filter_membership db w = Inr w'"
  shows "map fst (by_group w') = map fst (by_group w)"
proof -
  from assms obtain bu pg bg' where
    d: "trim_groups db bu (map fst (by_group w)) (by_group w) = Inr bg'" and
    e: "w' = w\<lparr>by_user := bu, by_group := bg', pgrps := pg\<rparr>"
    by (rule filter_membership_Inr)
  from trim_groups_keys [OF d] e show ?thesis by simp
qed

lemma filter_membership_top: "filter_membership db w = Inr w' \<Longrightarrow> top' w' = top' w"
  by (erule filter_membership_Inr) simp

lemma build_Inr:
  assumes "build db stat root (Walker_init t) = Inr w"
  obtains w1 where "build_loop db stat (walk_top t root) (Walker_init t) = Inr w1"
    and "filter_membership db w1 = Inr w"
  using assms by (auto simp: build_def Walker_init_def split: sum.splits)

lemma build_cong_stat:
  assumes "\<And>item. item \<in> set (things (walk_top (top' w) root)) \<Longrightarrow> stat item = stat2 item"
  shows "build db stat root w = build db stat2 root w"
  using build_loop_cong_stat [of "walk_top (top' w) root" stat stat2 db w] assms
  by (simp add: build_def)

section \<open>Well-formed tables\<close>

lemma distinct_set_add: "distinct xs \<Longrightarrow> distinct (set_add x xs)"
  by (simp add: set_add_def)

lemma distinct_fold_set_add: "distinct acc \<Longrightarrow> distinct (fold set_add xs acc)"
  by (induction xs arbitrary: acc) (simp_all add: distinct_set_add)

lemma add_path_fields [simp]:
  "id' (add_path itype item r) = id' r" "members (add_path itype item r) = members r"
  by (simp_all add: add_path_def)

lemma new_record_fields [simp]:
  "id' (new_record n i g d) = i" "members (new_record n i g d) = []"
  by (simp_all add: new_record_def)

lemma tables_ok_step:
  assumes "tables_ok w" and "add_thing db stat item itype w = Inr w'"
  shows "tables_ok w'"
proof -
  have u: "table_ok (by_user w')"
    unfolding table_ok_def
  proof (intro conjI allI impI)
    from assms show "distinct (map fst (by_user w'))"
      by (auto simp: tables_ok_def table_ok_def intro: add_thing_distinct_users)
  next
    fix k r' assume "map_of (by_user w') k = Some r'"
    from add_thing_user_rec [OF assms(2) this] assms(1)
    show "id' r' = k"
      by (auto simp: tables_ok_def table_ok_def)
  next
    fix k r' assume "map_of (by_user w') k = Some r'"
    from add_thing_user_rec [OF assms(2) this] assms(1)
    show "distinct (members r')"
      by (auto simp: tables_ok_def table_ok_def)
  qed
  have g: "table_ok (by_group w')"
    unfolding table_ok_def
  proof (intro conjI allI impI)
    from assms show "distinct (map fst (by_group w'))"
      by (auto simp: tables_ok_def table_ok_def intro: add_thing_distinct_groups)
  next
    fix k r' assume "map_of (by_group w') k = Some r'"
    from add_thing_group_rec [OF assms(2) this] assms(1)
    show "id' r' = k"
      by (auto simp: tables_ok_def table_ok_def)
  next
    fix k r' assume "map_of (by_group w') k = Some r'"
    from add_thing_group_rec [OF assms(2) this] assms(1)
    show "distinct (members r')"
      by (auto simp: tables_ok_def table_ok_def distinct_fold_set_add)
  qed
  from u g show ?thesis by (simp add: tables_ok_def)
qed

lemma build_loop_tables_ok:
  assumes "build_loop db stat ts (Walker_init t) = Inr w"
  shows "tables_ok w"
proof (rule build_loop_inv [where I = tables_ok, OF assms])
  show "tables_ok (Walker_init t)"
    by (simp add: tables_ok_def table_ok_def Walker_init_def)
next
  fix item itype v v'
  assume "tables_ok v" "add_thing db stat item itype v = Inr v'"
  then show "tables_ok v'" by (rule tables_ok_step)
qed

lemma keep_members_distinct:
  "keep_members db bu mems keep = Inr keep' \<Longrightarrow> distinct keep \<Longrightarrow> distinct keep'"
  by (induction mems arbitrary: keep) (auto split: option.splits if_splits simp: distinct_set_add)

lemma trim_groups_members:
  "trim_groups db bu gids d = Inr d' \<Longrightarrow>
   (\<forall>k r. map_of d k = Some r \<longrightarrow> distinct (members r)) \<Longrightarrow>
   map_of d' k = Some r' \<Longrightarrow> distinct (members r')"
proof (induction gids arbitrary: d)
  case Nil
  then show ?case by simp
next
  case (Cons g gids)
  from Cons.prems(1) obtain r where r: "map_of d g = Some r"
    by (auto split: option.splits)
  show ?case
  proof (cases "length (members r) = 0")
    case True
    with Cons.prems(1) r have "trim_groups db bu gids d = Inr d'" by simp
    from Cons.IH [OF this Cons.prems(2,3)] show ?thesis .
  next
    case False
    with Cons.prems(1) r obtain keep where
      k: "keep_members db bu (members r) [] = Inr keep" and
      t: "trim_groups db bu gids (AList.update g (r\<lparr>members := keep\<rparr>) d) = Inr d'"
      by (auto split: sum.splits)
    from keep_members_distinct [OF k] have dk: "distinct keep" by simp
    have "\<forall>k r0. map_of (AList.update g (r\<lparr>members := keep\<rparr>) d) k = Some r0 \<longrightarrow> distinct (members r0)"
      using Cons.prems(2) dk by (auto simp: update_conv')
    from Cons.IH [OF t this Cons.prems(3)] show ?thesis .
  qed
qed

lemma filter_membership_tables_ok:
  assumes "filter_membership db w = Inr w'" and "tables_ok w"
  shows "tables_ok w'"
proof -
  from assms(1) obtain bu pg bg' where
    a: "purge_users (map fst (by_user w)) (by_user w) = Inr bu" and
    d: "trim_groups db bu (map fst (by_group w)) (by_group w) = Inr bg'" and
    e: "w' = w\<lparr>by_user := bu, by_group := bg', pgrps := pg\<rparr>"
    by (rule filter_membership_Inr)
  from assms(2) have ou: "table_ok (by_user w)" and og: "table_ok (by_group w)"
    by (simp_all add: tables_ok_def)
  have u: "table_ok bu"
    unfolding table_ok_def
  proof (intro conjI allI impI)
    from purge_users_distinct [OF a] ou show "distinct (map fst bu)"
      by (simp add: table_ok_def)
  next
    fix k r assume "map_of bu k = Some r"
    from purge_users_sub [OF a this] ou show "id' r = k" by (simp add: table_ok_def)
  next
    fix k r assume "map_of bu k = Some r"
    from purge_users_sub [OF a this] ou show "distinct (members r)" by (simp add: table_ok_def)
  qed
  have g: "table_ok bg'"
    unfolding table_ok_def
  proof (intro conjI allI impI)
    from trim_groups_keys [OF d] og show "distinct (map fst bg')"
      by (simp add: table_ok_def)
  next
    fix k r' assume "map_of bg' k = Some r'"
    from trim_groups_rec [OF d this] og show "id' r' = k"
      by (auto simp: table_ok_def)
  next
    fix k r' assume r': "map_of bg' k = Some r'"
    from og have "\<forall>k r. map_of (by_group w) k = Some r \<longrightarrow> distinct (members r)"
      by (simp add: table_ok_def)
    from trim_groups_members [OF d this r'] show "distinct (members r')" .
  qed
  from u g e show ?thesis by (simp add: tables_ok_def)
qed

lemma build_tables_ok:
  assumes "build db stat root (Walker_init t) = Inr w"
  shows "tables_ok w"
proof -
  from assms obtain w1 where
    1: "build_loop db stat (walk_top t root) (Walker_init t) = Inr w1" and
    2: "filter_membership db w1 = Inr w"
    by (rule build_Inr)
  from filter_membership_tables_ok [OF 2 build_loop_tables_ok [OF 1]] show ?thesis .
qed

section \<open>The texts of the report\<close>

lemma passwd_text_eq:
  "(\<forall>k \<in> set ks. map_of d k \<noteq> None) \<Longrightarrow>
   passwd_text d ks acc = Inr (acc @ concat (map (\<lambda>k. passwd_line (the (map_of d k))) ks))"
  by (induction ks arbitrary: acc) auto

lemma group_text_eq:
  "(\<forall>k \<in> set ks. map_of d k \<noteq> None) \<Longrightarrow>
   group_text h d ks acc = Inr (acc @ concat (map (\<lambda>k. group_line h (the (map_of d k))) ks))"
  by (induction ks arbitrary: acc) auto

lemma keys_present: "\<forall>k \<in> set (sort (map fst d)). map_of d k \<noteq> None"
  by (auto simp: map_of_eq_None_iff)

lemma passwd_text_sorted:
  "passwd_text d (sort (map fst d)) [] = Inr (concat (map passwd_line (records_by_id d)))"
  using passwd_text_eq [OF keys_present, of d "[]"]
  by (simp add: records_by_id_def o_def)

lemma group_text_sorted:
  "group_text h d (sort (map fst d)) [] = Inr (concat (map (group_line h) (records_by_id d)))"
  using group_text_eq [OF keys_present, of h d "[]"]
  by (simp add: records_by_id_def o_def)

lemma set_records_by_id: "set (records_by_id d) = ran (map_of d)"
proof
  show "set (records_by_id d) \<subseteq> ran (map_of d)"
  proof
    fix r assume "r \<in> set (records_by_id d)"
    then obtain k where k: "k \<in> set (map fst d)" and r: "r = the (map_of d k)"
      by (auto simp: records_by_id_def)
    from k obtain v where "map_of d k = Some v"
      by (metis map_of_eq_None_iff not_None_eq set_map)
    with r show "r \<in> ran (map_of d)" by (auto simp: ran_def)
  qed
next
  show "ran (map_of d) \<subseteq> set (records_by_id d)"
  proof
    fix r assume "r \<in> ran (map_of d)"
    then obtain k where k: "map_of d k = Some r" by (auto simp: ran_def)
    from map_of_Some_key [OF k] have "k \<in> set (sort (map fst d))" by simp
    then have "the (map_of d k) \<in> (\<lambda>k. the (map_of d k)) ` set (sort (map fst d))"
      by (rule imageI)
    then have "the (map_of d k) \<in> set (records_by_id d)"
      by (simp add: records_by_id_def)
    with k show "r \<in> set (records_by_id d)" by simp
  qed
qed

lemma ids_records_by_id:
  assumes "table_ok d"
  shows "map id' (records_by_id d) = sort (map fst d)"
proof -
  have "id' (the (map_of d k)) = k" if "k \<in> set (sort (map fst d))" for k
  proof -
    from that obtain v where "map_of d k = Some v"
      by (metis map_of_eq_None_iff not_None_eq set_map set_sort)
    with assms show ?thesis by (simp add: table_ok_def)
  qed
  then have "map (\<lambda>k. id' (the (map_of d k))) (sort (map fst d)) = map (\<lambda>k. k) (sort (map fst d))"
    by (intro map_cong) simp_all
  then show ?thesis by (simp add: records_by_id_def o_def)
qed

lemma ids_strictly_ascending:
  assumes "table_ok d"
  shows "sorted_wrt (<) (map id' (records_by_id d))"
proof -
  from assms have "distinct (map fst d)" by (simp add: table_ok_def)
  then show ?thesis
    by (simp add: ids_records_by_id [OF assms] strict_sorted_iff)
qed

lemma join_snoc:
  "join sep (ms @ [m]) = (if ms = [] then m else join sep ms @ sep @ m)"
  by (induction sep ms rule: join.induct) auto

lemma report_texts:
  assumes "wr ''passwd''" and "wr ''group''"
  shows "report wr h w =
     (None, [(''passwd'', concat (map passwd_line (records_by_id (by_user w)))),
             (''group'', concat (map (group_line h) (records_by_id (by_group w))))])"
  using assms
  by (simp add: report_def passwd_text_sorted group_text_sorted write_text_def)

section \<open>The calls of a traversal\<close>

lemma add_all_append:
  "add_all db stat (xs @ ys) w =
     (case add_all db stat xs w of Inl e \<Rightarrow> Inl e | Inr w' \<Rightarrow> add_all db stat ys w')"
  by (induction xs arbitrary: w) (auto split: sum.splits)

lemma add_names_calls:
  "add_names db stat root itype ns w = add_all db stat (map (\<lambda>n. (root @ [n], itype)) ns) w"
  by (induction ns arbitrary: w) (auto split: sum.splits)

lemma calls_Cons:
  "calls ((root, ds, fs) # ts) =
     map (\<lambda>n. (root @ [n], FILE)) fs @ map (\<lambda>n. (root @ [n], DIR)) ds @ calls ts"
  by (simp add: calls_def)

lemma build_loop_calls: "build_loop db stat ts w = add_all db stat (calls ts) w"
proof (induction ts arbitrary: w)
  case Nil
  then show ?case by (simp add: calls_def)
next
  case (Cons tr ts)
  obtain root ds fs where tr: "tr = (root, ds, fs)" by (cases tr) auto
  show ?case
    by (simp add: tr calls_Cons add_all_append add_names_calls Cons.IH split: sum.splits)
qed

lemma calls_file:
  assumes "(root, ds, fs) \<in> set ts" and "n \<in> set fs"
  shows "(root @ [n], FILE) \<in> set (calls ts)"
  using assms
proof (induction ts)
  case Nil
  then show ?case by simp
next
  case (Cons tr ts)
  obtain r d f where tr: "tr = (r, d, f)" by (cases tr) auto
  show ?case
  proof (cases "tr = (root, ds, fs)")
    case True
    with Cons.prems(2) tr show ?thesis by (simp add: calls_Cons)
  next
    case False
    with Cons.prems have "(root, ds, fs) \<in> set ts" by simp
    from Cons.IH [OF this Cons.prems(2)] tr show ?thesis by (simp add: calls_Cons)
  qed
qed

lemma calls_dir:
  assumes "(root, ds, fs) \<in> set ts" and "n \<in> set ds"
  shows "(root @ [n], DIR) \<in> set (calls ts)"
  using assms
proof (induction ts)
  case Nil
  then show ?case by simp
next
  case (Cons tr ts)
  obtain r d f where tr: "tr = (r, d, f)" by (cases tr) auto
  show ?case
  proof (cases "tr = (root, ds, fs)")
    case True
    with Cons.prems(2) tr show ?thesis by (simp add: calls_Cons)
  next
    case False
    with Cons.prems have "(root, ds, fs) \<in> set ts" by simp
    from Cons.IH [OF this Cons.prems(2)] tr show ?thesis by (simp add: calls_Cons)
  qed
qed

lemma entries_Directory_mem:
  "x \<in> set (entries p (Directory es)) \<longleftrightarrow>
     (\<exists>e \<in> set es. x = (p @ [fst e], snd e) \<or> x \<in> set (entries (p @ [fst e]) (snd e)))"
  by auto

lemma entries_walk:
  "(item, nd) \<in> set (entries p tr) \<Longrightarrow>
   \<exists>root ds fs n. (root, ds, fs) \<in> set (walk p tr) \<and> item = root @ [n] \<and>
      (if is_dir nd then n \<in> set ds else n \<in> set fs)"
proof (induction p tr arbitrary: item nd rule: walk.induct)
  case (1 p k)
  then show ?case by simp
next
  case (2 p es)
  from "2.prems" obtain e where e: "e \<in> set es"
    and c: "(item, nd) = (p @ [fst e], snd e) \<or> (item, nd) \<in> set (entries (p @ [fst e]) (snd e))"
    unfolding entries_Directory_mem by blast
  from c show ?case
  proof
    assume "(item, nd) = (p @ [fst e], snd e)"
    then have i: "item = p @ [fst e]" and n: "nd = snd e" by simp_all
    have t: "(p, dirnames es, filenames es) \<in> set (walk p (Directory es))" by simp
    have "if is_dir nd then fst e \<in> set (dirnames es) else fst e \<in> set (filenames es)"
      using e n by (auto simp: dirnames_def filenames_def)
    with t i show ?thesis by blast
  next
    assume sub: "(item, nd) \<in> set (entries (p @ [fst e]) (snd e))"
    then have d: "is_dir (snd e)" by (cases "snd e") auto
    with e have "e \<in> set (filter (\<lambda>e. is_dir (snd e)) es)" by simp
    from "2.IH" [OF this sub] obtain root ds fs n where
      w: "(root, ds, fs) \<in> set (walk (p @ [fst e]) (snd e))" and
      r: "item = root @ [n]" "if is_dir nd then n \<in> set ds else n \<in> set fs"
      by blast
    from w e d have "(root, ds, fs) \<in> set (walk p (Directory es))" by auto
    with r show ?thesis by blast
  qed
qed

lemma walk_entries:
  "(root, ds, fs) \<in> set (walk p tr) \<Longrightarrow> n \<in> set ds \<union> set fs \<Longrightarrow>
   \<exists>nd. (root @ [n], nd) \<in> set (entries p tr)"
proof (induction p tr arbitrary: root ds fs rule: walk.induct)
  case (1 p k)
  then show ?case by simp
next
  case (2 p es)
  from "2.prems"(1) consider
    (sub) e where "e \<in> set es" "is_dir (snd e)" "(root, ds, fs) \<in> set (walk (p @ [fst e]) (snd e))"
    | (own) "root = p" "ds = dirnames es" "fs = filenames es"
    by auto
  then show ?case
  proof cases
    case sub
    from sub(1,2) have "e \<in> set (filter (\<lambda>e. is_dir (snd e)) es)" by simp
    from "2.IH" [OF this sub(3) "2.prems"(2)] obtain nd where
      "(root @ [n], nd) \<in> set (entries (p @ [fst e]) (snd e))" by blast
    with sub(1) have "(root @ [n], nd) \<in> set (entries p (Directory es))"
      unfolding entries_Directory_mem by blast
    then show ?thesis by blast
  next
    case own
    with "2.prems"(2) obtain e where "e \<in> set es" "fst e = n"
      by (auto simp: dirnames_def filenames_def)
    with own(1) have "(root @ [n], snd e) \<in> set (entries p (Directory es))"
      unfolding entries_Directory_mem by blast
    then show ?thesis by blast
  qed
qed

lemma entries_call:
  assumes "(item, nd) \<in> set (entries_top t root)"
  shows "(item, if is_dir nd then DIR else FILE) \<in> set (calls (walk_top t root))"
proof -
  from assms obtain tr where root: "root = Some tr" and e: "(item, nd) \<in> set (entries t tr)"
    by (auto simp: entries_top_def split: option.splits)
  from entries_walk [OF e] obtain r ds fs n where
    "(r, ds, fs) \<in> set (walk t tr)" "item = r @ [n]" "if is_dir nd then n \<in> set ds else n \<in> set fs"
    by blast
  then have w: "(r, ds, fs) \<in> set (walk_top t root)" and i: "item = r @ [n]"
    and n: "if is_dir nd then n \<in> set ds else n \<in> set fs"
    by (simp_all add: root walk_top_def)
  show ?thesis
  proof (cases "is_dir nd")
    case True
    with n have "n \<in> set ds" by simp
    from calls_dir [OF w this] True i show ?thesis by simp
  next
    case False
    with n have "n \<in> set fs" by simp
    from calls_file [OF w this] False i show ?thesis by simp
  qed
qed

lemma things_entries:
  assumes "item \<in> set (things (walk_top t root))"
  shows "\<exists>nd. (item, nd) \<in> set (entries_top t root)"
proof -
  from assms obtain r ds fs n where "(r, ds, fs) \<in> set (walk_top t root)"
    and item: "item = r @ [n]" and n: "n \<in> set ds \<union> set fs"
    by (auto simp: things_def)
  then obtain tr where root: "root = Some tr" and w: "(r, ds, fs) \<in> set (walk t tr)"
    by (auto simp: walk_top_def split: option.splits)
  from walk_entries [OF w n] item root show ?thesis
    by (auto simp: entries_top_def)
qed

section \<open>What a completed traversal has recorded\<close>

lemma add_thing_user_mono:
  assumes "add_thing db stat item itype w = Inr w'" and "map_of (by_user w) k = Some r"
  shows "\<exists>r'. map_of (by_user w') k = Some r' \<and> set (files r) \<subseteq> set (files r') \<and>
              set (dirs r) \<subseteq> set (dirs r')"
  using assms
  by (auto simp: add_thing_def Let_def contains_def map_of_append_item update_conv' add_path_def
           split: sum.splits option.splits if_splits prod.splits)

lemma add_thing_group_mono:
  assumes "add_thing db stat item itype w = Inr w'" and "map_of (by_group w) k = Some r"
  shows "\<exists>r'. map_of (by_group w') k = Some r' \<and> set (files r) \<subseteq> set (files r') \<and>
              set (dirs r) \<subseteq> set (dirs r')"
  using assms
  by (auto simp: add_thing_def Let_def contains_def map_of_append_item update_conv' add_path_def
           split: sum.splits option.splits if_splits prod.splits)

text \<open>\<open>item\<close> is among the files of the user \<open>uid\<close> and of the group \<open>gid\<close>.\<close>

lemma add_all_keeps_file:
  assumes "add_all db stat cs w = Inr w'"
    and "\<exists>r g. map_of (by_user w) uid = Some r \<and> item \<in> set (files r) \<and>
               map_of (by_group w) gid = Some g \<and> item \<in> set (files g)"
  shows "\<exists>r g. map_of (by_user w') uid = Some r \<and> item \<in> set (files r) \<and>
               map_of (by_group w') gid = Some g \<and> item \<in> set (files g)"
  using assms
proof (induction cs arbitrary: w)
  case Nil
  then show ?case by simp
next
  case (Cons c cs)
  from Cons.prems(1) obtain w1 where 1: "add_thing db stat (fst c) (snd c) w = Inr w1"
    and 2: "add_all db stat cs w1 = Inr w'"
    by (auto split: sum.splits)
  from Cons.prems(2) obtain r g where r: "map_of (by_user w) uid = Some r" "item \<in> set (files r)"
    and g: "map_of (by_group w) gid = Some g" "item \<in> set (files g)"
    by blast
  from add_thing_user_mono [OF 1 r(1)] r(2) obtain r' where
    r': "map_of (by_user w1) uid = Some r'" "item \<in> set (files r')" by blast
  from add_thing_group_mono [OF 1 g(1)] g(2) obtain g' where
    g': "map_of (by_group w1) gid = Some g'" "item \<in> set (files g')" by blast
  from r' g' have "\<exists>r g. map_of (by_user w1) uid = Some r \<and> item \<in> set (files r) \<and>
               map_of (by_group w1) gid = Some g \<and> item \<in> set (files g)" by blast
  from Cons.IH [OF 2 this] show ?case .
qed

lemma add_all_records_file:
  assumes "add_all db stat cs w = Inr w'" and "(item, FILE) \<in> set cs"
    and "stat item = Inr (uid, gid)"
  shows "\<exists>r g. map_of (by_user w') uid = Some r \<and> item \<in> set (files r) \<and>
               map_of (by_group w') gid = Some g \<and> item \<in> set (files g)"
  using assms(1,2)
proof (induction cs arbitrary: w)
  case Nil
  then show ?case by simp
next
  case (Cons c cs)
  from Cons.prems(1) obtain w1 where 1: "add_thing db stat (fst c) (snd c) w = Inr w1"
    and 2: "add_all db stat cs w1 = Inr w'"
    by (auto split: sum.splits)
  show ?case
  proof (cases "c = (item, FILE)")
    case True
    with 1 have "add_thing db stat item FILE w = Inr w1" by simp
    from add_thing_records [OF this assms(3)]
    have "\<exists>r g. map_of (by_user w1) uid = Some r \<and> item \<in> set (files r) \<and>
               map_of (by_group w1) gid = Some g \<and> item \<in> set (files g)" by auto
    from add_all_keeps_file [OF 2 this] show ?thesis .
  next
    case False
    with Cons.prems(2) have "(item, FILE) \<in> set cs" by simp
    from Cons.IH [OF 2 this] show ?thesis .
  qed
qed

lemma add_all_fails:
  assumes "(item, itype) \<in> set cs" and "\<And>v. \<exists>e. add_thing db stat item itype v = Inl e"
  shows "\<exists>e. add_all db stat cs w = Inl e"
  using assms(1)
proof (induction cs arbitrary: w)
  case Nil
  then show ?case by simp
next
  case (Cons c cs)
  show ?case
  proof (cases "add_thing db stat (fst c) (snd c) w")
    case (Inl e)
    then show ?thesis by simp
  next
    case (Inr w1)
    have "c \<noteq> (item, itype)"
    proof
      assume "c = (item, itype)"
      with Inr have "add_thing db stat item itype w = Inr w1" by simp
      with assms(2) [of w] show False by auto
    qed
    with Cons.prems have "(item, itype) \<in> set cs" by auto
    from Cons.IH [OF this, of w1] Inr show ?thesis by simp
  qed
qed

lemma add_thing_unknown_owner:
  assumes "stat item = Inr (uid, gid)" and "getpwuid db uid = None \<or> getgrgid db gid = None"
  shows "add_thing db stat item itype w = Inl KeyError"
  using assms by (auto simp: add_thing_def split: option.splits)

lemma build_unknown_owner:
  assumes "(item, nd) \<in> set (entries_top (top' w) root)" and "stat item = Inr (uid, gid)"
    and "getpwuid db uid = None \<or> getgrgid db gid = None"
  shows "\<exists>e. build db stat root w = Inl e"
proof -
  let ?itype = "if is_dir nd then DIR else FILE"
  from entries_call [OF assms(1)] have c: "(item, ?itype) \<in> set (calls (walk_top (top' w) root))" .
  have "\<exists>e. add_thing db stat item ?itype v = Inl e" for v
    using add_thing_unknown_owner [where stat = stat and item = item and db = db, OF assms(2,3)]
    by blast
  from add_all_fails [OF c this] obtain e where
    "add_all db stat (calls (walk_top (top' w) root)) w = Inl e" by blast
  then show ?thesis by (simp add: build_def build_loop_calls)
qed

section \<open>What the filter keeps\<close>

lemma purge_users_keeps:
  "purge_users uids d = Inr d' \<Longrightarrow> map_of d k = Some r \<Longrightarrow> files r \<noteq> [] \<or> dirs r \<noteq> [] \<Longrightarrow>
   map_of d' k = Some r"
proof (induction uids arbitrary: d)
  case Nil
  then show ?case by simp
next
  case (Cons uid uids)
  from Cons.prems(1) obtain r0 where r0: "map_of d uid = Some r0"
    by (auto split: option.splits)
  let ?d = "if length (files r0) = 0 \<and> length (dirs r0) = 0 then AList.delete uid d else d"
  from Cons.prems(1) r0 have rec: "purge_users uids ?d = Inr d'" by simp
  have "map_of ?d k = Some r"
    using Cons.prems(2,3) r0 by (auto simp: delete_conv')
  from Cons.IH [OF rec this Cons.prems(3)] show ?case .
qed

lemma keep_members_subset:
  "keep_members db bu mems keep = Inr keep' \<Longrightarrow> set keep' \<subseteq> set keep \<union> set mems"
proof (induction mems arbitrary: keep)
  case Nil
  then show ?case by simp
next
  case (Cons m mems)
  from Cons.prems obtain urec where "getpwnam db m = Some urec"
    and "keep_members db bu mems (if contains bu (pw_uid urec) then set_add m keep else keep) = Inr keep'"
    by (auto split: option.splits)
  from Cons.IH [OF this(2)] show ?case
    by (auto simp: set_add_def split: if_splits)
qed

lemma trim_groups_fwd:
  "trim_groups db bu gids d = Inr d' \<Longrightarrow> map_of d k = Some r \<Longrightarrow>
   \<exists>ms. map_of d' k = Some (r\<lparr>members := ms\<rparr>) \<and> set ms \<subseteq> set (members r)"
proof (induction gids arbitrary: d r)
  case Nil
  then have "map_of d' k = Some (r\<lparr>members := members r\<rparr>)" by simp
  then show ?case by blast
next
  case (Cons g gids)
  from Cons.prems(1) obtain r0 where r0: "map_of d g = Some r0"
    by (auto split: option.splits)
  show ?case
  proof (cases "length (members r0) = 0")
    case True
    with Cons.prems(1) r0 have "trim_groups db bu gids d = Inr d'" by simp
    from Cons.IH [OF this Cons.prems(2)] show ?thesis .
  next
    case False
    with Cons.prems(1) r0 obtain keep where
      k: "keep_members db bu (members r0) [] = Inr keep" and
      t: "trim_groups db bu gids (AList.update g (r0\<lparr>members := keep\<rparr>) d) = Inr d'"
      by (auto split: sum.splits)
    from keep_members_subset [OF k] have sub: "set keep \<subseteq> set (members r0)" by simp
    show ?thesis
    proof (cases "k = g")
      case True
      with r0 Cons.prems(2) have eq: "r0 = r" by simp
      from True have "map_of (AList.update g (r0\<lparr>members := keep\<rparr>) d) k = Some (r0\<lparr>members := keep\<rparr>)"
        by (simp add: update_conv')
      from Cons.IH [OF t this] obtain ms where
        "map_of d' k = Some (r0\<lparr>members := keep\<rparr>\<lparr>members := ms\<rparr>)" and "set ms \<subseteq> set keep"
        by auto
      with sub eq have "map_of d' k = Some (r\<lparr>members := ms\<rparr>) \<and> set ms \<subseteq> set (members r)"
        by auto
      then show ?thesis by blast
    next
      case False
      with Cons.prems(2) have "map_of (AList.update g (r0\<lparr>members := keep\<rparr>) d) k = Some r"
        by (simp add: update_conv')
      from Cons.IH [OF t this] show ?thesis .
    qed
  qed
qed

lemma filter_membership_keeps_user:
  assumes "filter_membership db w = Inr w'" and "map_of (by_user w) k = Some r"
    and "files r \<noteq> [] \<or> dirs r \<noteq> []"
  shows "map_of (by_user w') k = Some r"
proof -
  from assms(1) obtain bu pg bg' where
    a: "purge_users (map fst (by_user w)) (by_user w) = Inr bu" and
    e: "w' = w\<lparr>by_user := bu, by_group := bg', pgrps := pg\<rparr>"
    by (rule filter_membership_Inr)
  from purge_users_keeps [OF a assms(2,3)] e show ?thesis by simp
qed

lemma filter_membership_keeps_group:
  assumes "filter_membership db w = Inr w'" and "map_of (by_group w) k = Some r"
  shows "\<exists>ms. map_of (by_group w') k = Some (r\<lparr>members := ms\<rparr>) \<and> set ms \<subseteq> set (members r)"
proof -
  from assms(1) obtain bu pg bg' where
    d: "trim_groups db bu (map fst (by_group w)) (by_group w) = Inr bg'" and
    e: "w' = w\<lparr>by_user := bu, by_group := bg', pgrps := pg\<rparr>"
    by (rule filter_membership_Inr)
  from trim_groups_fwd [OF d assms(2)] e show ?thesis by simp
qed

lemma build_records_file:
  assumes "build db stat root (Walker_init t) = Inr w"
    and "(item, Entry k) \<in> set (entries_top t root)" and "stat item = Inr (uid, gid)"
  shows "\<exists>r g. map_of (by_user w) uid = Some r \<and> item \<in> set (files r) \<and>
               map_of (by_group w) gid = Some g \<and> item \<in> set (files g)"
proof -
  from assms(1) obtain w1 where
    1: "build_loop db stat (walk_top t root) (Walker_init t) = Inr w1" and
    2: "filter_membership db w1 = Inr w"
    by (rule build_Inr)
  from entries_call [OF assms(2)] have c: "(item, FILE) \<in> set (calls (walk_top t root))" by simp
  from 1 have "add_all db stat (calls (walk_top t root)) (Walker_init t) = Inr w1"
    by (simp add: build_loop_calls)
  from add_all_records_file [OF this c assms(3)] obtain r g where
    r: "map_of (by_user w1) uid = Some r" "item \<in> set (files r)" and
    g: "map_of (by_group w1) gid = Some g" "item \<in> set (files g)"
    by blast
  from r(2) have "files r \<noteq> [] \<or> dirs r \<noteq> []" by auto
  from filter_membership_keeps_user [OF 2 r(1) this] have r': "map_of (by_user w) uid = Some r" .
  from filter_membership_keeps_group [OF 2 g(1)] obtain ms where
    g': "map_of (by_group w) gid = Some (g\<lparr>members := ms\<rparr>)" by blast
  from g(2) have "item \<in> set (files (g\<lparr>members := ms\<rparr>))" by simp
  with r' r(2) g' show ?thesis by blast
qed

lemma build_unrecorded:
  assumes "build db stat root (Walker_init t) = Inr w" and "stat item = Inl e"
    and "map_of (by_user w) i = Some r \<or> map_of (by_group w) i = Some r"
  shows "item \<notin> owned r"
proof
  assume in_r: "item \<in> owned r"
  from assms(1) obtain w1 where
    1: "build_loop db stat (walk_top t root) (Walker_init t) = Inr w1" and
    2: "filter_membership db w1 = Inr w"
    by (rule build_Inr)
  from assms(3) have "\<exists>u g. stat item = Inr (u, g)"
  proof
    assume "map_of (by_user w) i = Some r"
    from filter_membership_user [OF 2 this] have "map_of (by_user w1) i = Some r" by simp
    with build_loop_users_own [OF 1] in_r show ?thesis
      unfolding users_own_def by blast
  next
    assume "map_of (by_group w) i = Some r"
    from filter_membership_group [OF 2 this] obtain r0 ms where
      r0: "map_of (by_group w1) i = Some r0" and "r = r0\<lparr>members := ms\<rparr>"
      by blast
    with in_r have "item \<in> owned r0" by simp
    with build_loop_groups_own [OF 1] r0 show ?thesis
      unfolding groups_own_def by blast
  qed
  with assms(2) show False by auto
qed

lemma add_all_without_skipped:
  "add_all db stat (filter (\<lambda>c. \<not> skipped stat (fst c)) cs) w = add_all db stat cs w"
proof (induction cs arbitrary: w)
  case Nil
  then show ?case by simp
next
  case (Cons c cs)
  show ?case
  proof (cases "skipped stat (fst c)")
    case True
    then have "add_thing db stat (fst c) (snd c) w = Inr w"
      unfolding skipped_def by (rule add_thing_skip)
    with True Cons.IH show ?thesis by simp
  next
    case False
    with Cons.IH show ?thesis by (simp split: sum.splits)
  qed
qed

lemma build_as_calls:
  "build db stat root w =
     (case add_all db stat (filter (\<lambda>c. \<not> skipped stat (fst c)) (calls (walk_top (top' w) root))) w of
        Inl e \<Rightarrow> Inl e
      | Inr w1 \<Rightarrow> filter_membership db w1)"
  by (simp add: build_def build_loop_calls add_all_without_skipped)

lemma report_passwd_text:
  assumes "(''passwd'', txt) \<in> set (snd (report wr hs w))"
  shows "txt = concat (map passwd_line (records_by_id (by_user w)))"
  using assms
  by (auto simp: report_def passwd_text_sorted group_text_sorted write_text_def split: if_splits)

lemma build_users_stat_owners:
  assumes "build db stat root (Walker_init t) = Inr b" and "map_of (by_user b) uid = Some r"
  shows "\<exists>p nd g. p \<in> owned r \<and> (p, nd) \<in> set (entries_top t root) \<and> stat p = Inr (uid, g)"
proof -
  from assms(1) obtain w1 where
    1: "build_loop db stat (walk_top t root) (Walker_init t) = Inr w1" and
    2: "filter_membership db w1 = Inr b"
    by (rule build_Inr)
  from filter_membership_user [OF 2 assms(2)] have old: "map_of (by_user w1) uid = Some r" by simp
  from build_loop_users_own [OF 1] old
  have ne: "owned r \<noteq> {}"
    and all: "\<forall>p \<in> owned r. p \<in> set (things (walk_top t root)) \<and> (\<exists>g. stat p = Inr (uid, g))"
    unfolding users_own_def by blast+
  from ne obtain p where p: "p \<in> owned r" by blast
  with all have "p \<in> set (things (walk_top t root))" and "\<exists>g. stat p = Inr (uid, g)" by blast+
  with things_entries p show ?thesis by blast
qed

section \<open>Decimal numerals\<close>

lemma digit_value_digit: "d < 10 \<Longrightarrow> digit_value (digit d) = d"
proof -
  assume "d < 10"
  then have "d \<in> {0, 1, 2, 3, 4, 5, 6, 7, 8, 9}" by auto
  then show ?thesis
    by (auto simp: digit_def digit_value_def)
qed

lemma digit_is_digit: "d < 10 \<Longrightarrow> digit d \<in> set ''0123456789''"
proof -
  assume "d < 10"
  then have "d \<in> {0, 1, 2, 3, 4, 5, 6, 7, 8, 9}" by auto
  then show ?thesis
    by (auto simp: digit_def)
qed

lemma nat_of_decimal_snoc:
  "nat_of_decimal (s @ [c]) = 10 * nat_of_decimal s + digit_value c"
  by (simp add: nat_of_decimal_def)

lemma nat_of_decimal_str: "nat_of_decimal (str n) = n"
proof (induction n rule: str.induct)
  case (1 n)
  show ?case
  proof (cases "n < 10")
    case True
    then have "str n = [digit n]" by (simp add: str.simps)
    with True show ?thesis
      by (simp add: nat_of_decimal_def digit_value_digit)
  next
    case False
    then have s: "str n = str (n div 10) @ [digit (n mod 10)]"
      by (subst str.simps) simp
    from False "1.IH" have "nat_of_decimal (str (n div 10)) = n div 10" by simp
    then show ?thesis
      by (simp add: s nat_of_decimal_snoc digit_value_digit)
  qed
qed

lemma str_digits: "set (str n) \<subseteq> set ''0123456789''"
proof (induction n rule: str.induct)
  case (1 n)
  show ?case
  proof (cases "n < 10")
    case True
    then have "str n = [digit n]" by (simp add: str.simps)
    with digit_is_digit [OF True] show ?thesis by simp
  next
    case False
    then have s: "str n = str (n div 10) @ [digit (n mod 10)]"
      by (subst str.simps) simp
    have "digit (n mod 10) \<in> set ''0123456789''" by (rule digit_is_digit) simp
    with False "1.IH" show ?thesis
      unfolding s by simp
  qed
qed

lemma str_nonempty: "str n \<noteq> []"
  by (subst str.simps) simp

lemma str_no_colon: "CHR '':'' \<notin> set (str n)"
  using str_digits [of n] by auto

lemma str_no_newline: "CHR ''\<newline>'' \<notin> set (str n)"
  using str_digits [of n] by auto

section \<open>Splitting a text\<close>

lemma split_on_nonempty: "split_on c s \<noteq> []"
  by (induction s) (auto split: list.splits)

lemma split_on_sep:
  "c \<notin> set l \<Longrightarrow> split_on c (l @ c # rest) = l # split_on c rest"
  by (induction l) auto

lemma lines_of_lines:
  "(\<forall>b \<in> set bs. CHR ''\<newline>'' \<notin> set b) \<Longrightarrow>
   lines_of (concat (map (\<lambda>b. b @ [CHR ''\<newline>'']) bs)) = bs"
proof (induction bs)
  case Nil
  then show ?case by (simp add: lines_of_def)
next
  case (Cons b bs)
  from Cons.prems have nb: "CHR ''\<newline>'' \<notin> set b" by simp
  let ?rest = "concat (map (\<lambda>b. b @ [CHR ''\<newline>'']) bs)"
  from Cons have ih: "butlast (split_on CHR ''\<newline>'' ?rest) = bs"
    by (simp add: lines_of_def)
  have "split_on CHR ''\<newline>'' (b @ CHR ''\<newline>'' # ?rest) = b # split_on CHR ''\<newline>'' ?rest"
    using nb by (rule split_on_sep)
  then show ?case
    using ih by (simp add: lines_of_def split_on_nonempty)
qed

lemma line_id_line:
  assumes "CHR '':'' \<notin> set nm"
  shows "line_id (nm @ '':*:'' @ str n @ '':'' @ rest) = n"
proof -
  have 1: "split_on CHR '':'' (nm @ CHR '':'' # (''*'' @ CHR '':'' # (str n @ CHR '':'' # rest)))
        = nm # split_on CHR '':'' (''*'' @ CHR '':'' # (str n @ CHR '':'' # rest))"
    using assms by (rule split_on_sep)
  have 2: "split_on CHR '':'' (''*'' @ CHR '':'' # (str n @ CHR '':'' # rest))
        = ''*'' # split_on CHR '':'' (str n @ CHR '':'' # rest)"
    by (rule split_on_sep) simp
  have 3: "split_on CHR '':'' (str n @ CHR '':'' # rest) = str n # split_on CHR '':'' rest"
    using str_no_colon by (rule split_on_sep)
  have "nm @ '':*:'' @ str n @ '':'' @ rest
        = nm @ CHR '':'' # (''*'' @ CHR '':'' # (str n @ CHR '':'' # rest))"
    by simp
  then have "split_on CHR '':'' (nm @ '':*:'' @ str n @ '':'' @ rest)
        = nm # ''*'' # str n # split_on CHR '':'' rest"
    using 1 2 3 by simp
  then show ?thesis
    by (simp add: line_id_def nat_of_decimal_str)
qed

lemma set_join: "set (join sep xs) \<subseteq> set sep \<union> \<Union> (set ` set xs)"
  by (induction sep xs rule: join.induct) auto

section \<open>Names from the identity database\<close>

lemma set_fold_set_add: "set (fold set_add xs acc) = set acc \<union> set xs"
  by (induction xs arbitrary: acc) (auto simp: set_add_def)

lemma add_path_names [simp]:
  "name (add_path itype item r) = name r" "pgrp (add_path itype item r) = pgrp r"
  by (simp_all add: add_path_def)

lemma new_record_names [simp]:
  "name (new_record n i g d) = n" "pgrp (new_record n i g d) = g"
  by (simp_all add: new_record_def)

lemma names_ok_step:
  assumes "names_ok db w" and "add_thing db stat item itype w = Inr w'"
  shows "names_ok db w'"
  unfolding names_ok_def
proof (intro conjI allI impI)
  fix k r' assume "map_of (by_user w') k = Some r'"
  from add_thing_user_rec [OF assms(2) this] assms(1)
  show "\<exists>pw. getpwuid db k = Some pw \<and> name r' = pw_name pw \<and> pgrp r' = pw_gid pw"
    by (fastforce simp: names_ok_def)
next
  fix k r' assume "map_of (by_group w') k = Some r'"
  from add_thing_group_rec [OF assms(2) this] assms(1)
  show "\<exists>gr. getgrgid db k = Some gr \<and> name r' = gr_name gr \<and> set (members r') \<subseteq> set (gr_mem gr)"
    by (fastforce simp: names_ok_def set_fold_set_add)
qed

lemma build_loop_names_ok:
  assumes "build_loop db stat ts (Walker_init t) = Inr w"
  shows "names_ok db w"
proof (rule build_loop_inv [where I = "names_ok db", OF assms])
  show "names_ok db (Walker_init t)"
    by (simp add: names_ok_def Walker_init_def)
next
  fix item itype v v'
  assume "names_ok db v" "add_thing db stat item itype v = Inr v'"
  then show "names_ok db v'" by (rule names_ok_step)
qed

lemma filter_membership_names_ok:
  assumes "filter_membership db w = Inr w'" and "names_ok db w"
  shows "names_ok db w'"
  unfolding names_ok_def
proof (intro conjI allI impI)
  fix k r assume "map_of (by_user w') k = Some r"
  from filter_membership_user [OF assms(1) this] assms(2)
  show "\<exists>pw. getpwuid db k = Some pw \<and> name r = pw_name pw \<and> pgrp r = pw_gid pw"
    by (auto simp: names_ok_def)
next
  fix k r' assume r': "map_of (by_group w') k = Some r'"
  from filter_membership_group [OF assms(1) r'] obtain r0 ms0 where
    r0: "map_of (by_group w) k = Some r0" and "r' = r0\<lparr>members := ms0\<rparr>" by blast
  from filter_membership_keeps_group [OF assms(1) r0] obtain ms where
    "map_of (by_group w') k = Some (r0\<lparr>members := ms\<rparr>)" and sub: "set ms \<subseteq> set (members r0)"
    by blast
  with r' have eq: "r' = r0\<lparr>members := ms\<rparr>" by simp
  from assms(2) r0 obtain gr where "getgrgid db k = Some gr" "name r0 = gr_name gr"
    "set (members r0) \<subseteq> set (gr_mem gr)"
    unfolding names_ok_def by blast
  with eq sub
  show "\<exists>gr. getgrgid db k = Some gr \<and> name r' = gr_name gr \<and> set (members r') \<subseteq> set (gr_mem gr)"
    by auto
qed

lemma build_names_ok:
  assumes "build db stat root (Walker_init t) = Inr w"
  shows "names_ok db w"
proof -
  from assms obtain w1 where
    1: "build_loop db stat (walk_top t root) (Walker_init t) = Inr w1" and
    2: "filter_membership db w1 = Inr w"
    by (rule build_Inr)
  from filter_membership_names_ok [OF 2 build_loop_names_ok [OF 1]] show ?thesis .
qed

section \<open>Reading the artifacts back\<close>

lemma passwd_line_body:
  "passwd_line r =
     (name r @ '':*:'' @ str (id' r) @ '':'' @ str (pgrp r) @ '':::'') @ [CHR ''\<newline>'']"
  by (simp add: passwd_line_def)

lemma group_line_body:
  "group_line h r =
     (name r @ '':*:'' @ str (id' r) @ '':'' @ join '','' (set_iter h (members r)))
       @ [CHR ''\<newline>'']"
  by (simp add: group_line_def)

lemma passwd_lines_read:
  assumes "\<forall>r \<in> set us. CHR '':'' \<notin> set (name r) \<and> CHR ''\<newline>'' \<notin> set (name r)"
  shows "map line_id (lines_of (concat (map passwd_line us))) = map id' us"
proof -
  let ?body = "\<lambda>r. name r @ '':*:'' @ str (id' r) @ '':'' @ str (pgrp r) @ '':::''"
  have "map passwd_line us = map (\<lambda>r. ?body r @ [CHR ''\<newline>'']) us"
    by (rule map_cong [OF refl]) (rule passwd_line_body)
  then have c: "concat (map passwd_line us) = concat (map (\<lambda>b. b @ [CHR ''\<newline>'']) (map ?body us))"
    by (simp only: map_map o_def)
  have "\<forall>b \<in> set (map ?body us). CHR ''\<newline>'' \<notin> set b"
    using assms str_no_newline by auto
  then have "lines_of (concat (map passwd_line us)) = map ?body us"
    unfolding c by (rule lines_of_lines)
  moreover have l: "line_id (?body r) = id' r" if "r \<in> set us" for r
    by (rule line_id_line) (use assms that in blast)
  have "map line_id (map ?body us) = map id' us"
    unfolding map_map o_def by (rule map_cong [OF refl]) (rule l)
  ultimately show ?thesis by simp
qed

lemma group_lines_read:
  assumes "\<forall>r \<in> set gs. CHR '':'' \<notin> set (name r) \<and> CHR ''\<newline>'' \<notin> set (name r) \<and>
             (\<forall>m \<in> set (members r). CHR ''\<newline>'' \<notin> set m)"
  shows "map line_id (lines_of (concat (map (group_line h) gs))) = map id' gs"
proof -
  let ?body = "\<lambda>r. name r @ '':*:'' @ str (id' r) @ '':'' @ join '','' (set_iter h (members r))"
  have "map (group_line h) gs = map (\<lambda>r. ?body r @ [CHR ''\<newline>'']) gs"
    by (rule map_cong [OF refl]) (rule group_line_body)
  then have c: "concat (map (group_line h) gs) = concat (map (\<lambda>b. b @ [CHR ''\<newline>'']) (map ?body gs))"
    by (simp only: map_map o_def)
  have j: "CHR ''\<newline>'' \<notin> set (join '','' (set_iter h (members r)))" if "r \<in> set gs" for r
  proof
    assume "CHR ''\<newline>'' \<in> set (join '','' (set_iter h (members r)))"
    with set_join [of "'',''" "set_iter h (members r)"]
    obtain m where "m \<in> set (set_iter h (members r))" "CHR ''\<newline>'' \<in> set m" by auto
    with assms that show False by (auto simp: set_iter_def)
  qed
  have "\<forall>b \<in> set (map ?body gs). CHR ''\<newline>'' \<notin> set b"
    using assms str_no_newline j by auto
  then have "lines_of (concat (map (group_line h) gs)) = map ?body gs"
    unfolding c by (rule lines_of_lines)
  moreover have l: "line_id (?body r) = id' r" if "r \<in> set gs" for r
    by (rule line_id_line) (use assms that in blast)
  have "map line_id (map ?body gs) = map id' gs"
    unfolding map_map o_def by (rule map_cong [OF refl]) (rule l)
  ultimately show ?thesis by simp
qed

section \<open>The claims\<close>

subsection \<open>C1: dropping dead groups\<close>

text \<open>
  C1 says that the filter removes every group record that owns no file or directory and
  whose id is not a primary group of a surviving user, and that the pass completes
  normally. On a table that holds such a record the pass does not complete: the record is
  deleted inside the loop over the dictionary itself, and the next step of the iterator
  raises \<open>RuntimeError\<close>. The first input is \<open>_filter_membership\<close> on a table with one
  dead group; the second is a run in which alice's primary group changes from \<open>staff\<close> to
  \<open>proj\<close> between the traversal and the filter, so that the record of \<open>staff\<close> is dead.
\<close>

theorem filter_membership_dead_group_raises:
  "filter_membership ex_db
     \<lparr>top' = [''.''], by_user = [], by_group = [(30, new_record ''proj'' 30 30 [])], pgrps = {}\<rparr>
     = Inl RuntimeError
   \<and> (case build_loop ex_db ex_stat (walk_top [''.''] (Some ex_tree_f)) (Walker_init [''.'']) of
        Inl e \<Rightarrow> Inl e
      | Inr w \<Rightarrow> filter_membership ex_db_moved w) = Inl RuntimeError"
  by (simp add: ex_defs model_defs)

subsection \<open>C2: symbolic links and other entries that are not directories\<close>

text \<open>
  C2 says that a symbolic link contributes nothing to the tables, whether its target
  exists or not. Counterexample: the tree holds one symbolic link whose target exists and
  belongs to alice and to group \<open>proj\<close>; the link is recorded as a file of alice and of
  \<open>proj\<close>.
\<close>

theorem symlink_recorded_counterexample:
  "build ex_db ex_link_stat (Some ex_link_tree) (Walker_init [''.'']) =
     Inr \<lparr>top' = [''.''],
          by_user = [(1000, \<lparr>name = ''alice'', id' = 1000, pgrp = 20, descr = ''Alice'',
                             files = [[''.'', ''link'']], dirs = [], members = []\<rparr>)],
          by_group = [(30, \<lparr>name = ''proj'', id' = 30, pgrp = 30, descr = [],
                             files = [[''.'', ''link'']], dirs = [], members = []\<rparr>),
                      (20, \<lparr>name = ''staff'', id' = 20, pgrp = 20, descr = [],
                             files = [], dirs = [], members = [''alice'']\<rparr>)],
          pgrps = {20}\<rparr>"
  by (simp add: ex_defs model_defs)

text \<open>
  C2 as amended: \<open>build\<close> hands every entry of the tree that is not a directory to
  \<open>_add_thing\<close> as a file, whatever its kind (regular file, symbolic link, fifo, device,
  socket), and the tables are those of the tree in which each such entry is a regular
  file. When \<open>build\<close> completes, every such entry whose \<open>stat\<close> succeeds, as that of a
  symbolic link with a target does (\<open>stat\<close> follows links), is among the files of the user
  and of the group that \<open>stat\<close> reports; an entry whose \<open>stat\<close> raises
  \<open>FileNotFoundError\<close> or \<open>PermissionError\<close>, as that of a link without target does, is
  in no record, and \<open>build\<close> returns what it returns when the calls for such entries are
  left out.
\<close>

theorem other_entries_are_files:
  "build db stat (Some (as_regular tr)) w = build db stat (Some tr) w
   \<and> build db stat root w =
       (case add_all db stat
               (filter (\<lambda>c. \<not> skipped stat (fst c)) (calls (walk_top (top' w) root))) w of
          Inl e \<Rightarrow> Inl e
        | Inr w1 \<Rightarrow> filter_membership db w1)
   \<and> (\<forall>p k. (p, Entry k) \<in> set (entries_top (top' w) root) \<longrightarrow>
          (p, FILE) \<in> set (calls (walk_top (top' w) root)))
   \<and> (build db stat root (Walker_init t) = Inr b \<longrightarrow>
        (\<forall>p k. (p, Entry k) \<in> set (entries_top t root) \<longrightarrow>
           (\<forall>u g. stat p = Inr (u, g) \<longrightarrow>
              (\<exists>r gr. map_of (by_user b) u = Some r \<and> p \<in> set (files r) \<and>
                      map_of (by_group b) g = Some gr \<and> p \<in> set (files gr)))
           \<and> (\<forall>e i r. stat p = Inl e \<and>
                 (map_of (by_user b) i = Some r \<or> map_of (by_group b) i = Some r)
                 \<longrightarrow> p \<notin> owned r)))
   \<and> (stat item = Inl FileNotFoundError \<or> stat item = Inl PermissionError \<longrightarrow>
        add_thing db stat item itype w = Inr w)
   \<and> (add_thing db stat item FILE w = Inr w' \<and> stat item = Inr (uid, gid) \<longrightarrow>
        (\<exists>r g. map_of (by_user w') uid = Some r \<and> item \<in> set (files r) \<and>
                map_of (by_group w') gid = Some g \<and> item \<in> set (files g)))"
proof -
  have 1: "build db stat (Some (as_regular tr)) w = build db stat (Some tr) w"
    by (simp add: build_def walk_top_def walk_as_regular)
  have 2: "build db stat root w =
       (case add_all db stat
               (filter (\<lambda>c. \<not> skipped stat (fst c)) (calls (walk_top (top' w) root))) w of
          Inl e \<Rightarrow> Inl e
        | Inr w1 \<Rightarrow> filter_membership db w1)"
    by (rule build_as_calls)
  have 3: "(p, FILE) \<in> set (calls (walk_top (top' w) root))"
    if "(p, Entry k) \<in> set (entries_top (top' w) root)" for p k
    using entries_call [OF that] by simp
  have 4: "\<exists>r gr. map_of (by_user b) u = Some r \<and> p \<in> set (files r) \<and>
                      map_of (by_group b) g = Some gr \<and> p \<in> set (files gr)"
    if "build db stat root (Walker_init t) = Inr b" "(p, Entry k) \<in> set (entries_top t root)"
      "stat p = Inr (u, g)" for p k u g
    using that by (rule build_records_file)
  have 5: "p \<notin> owned r"
    if "build db stat root (Walker_init t) = Inr b" "stat p = Inl e"
      "map_of (by_user b) i = Some r \<or> map_of (by_group b) i = Some r" for p e i r
    using that by (rule build_unrecorded)
  have 6: "add_thing db stat item itype w = Inr w"
    if "stat item = Inl FileNotFoundError \<or> stat item = Inl PermissionError"
    using that by (rule add_thing_skip)
  have 7: "\<exists>r g. map_of (by_user w') uid = Some r \<and> item \<in> set (files r) \<and>
                map_of (by_group w') gid = Some g \<and> item \<in> set (files g)"
    if "add_thing db stat item FILE w = Inr w' \<and> stat item = Inr (uid, gid)"
  proof -
    from that have a: "add_thing db stat item FILE w = Inr w'" and b: "stat item = Inr (uid, gid)"
      by simp_all
    from add_thing_records [OF a b] show ?thesis by auto
  qed
  from 1 2 3 4 5 6 7 show ?thesis by blast
qed

theorem other_entries_are_files_witness:
  "build ex_db ex_link_stat (Some ex_link_tree) (Walker_init [''.'']) = Inr ex_link_built
   \<and> entries_top [''.''] (Some ex_link_tree) = [([''.'', ''link''], Entry Symlink)]
   \<and> ex_link_stat [''.'', ''link''] = Inr (1000, 30)
   \<and> (\<exists>r gr. map_of (by_user ex_link_built) 1000 = Some r \<and> [''.'', ''link''] \<in> set (files r) \<and>
              map_of (by_group ex_link_built) 30 = Some gr \<and> [''.'', ''link''] \<in> set (files gr))
   \<and> ([''.'', ''link''], FILE) \<in> set (calls (walk_top [''.''] (Some ex_link_tree)))
   \<and> add_thing ex_db ex_link_stat [''.'', ''gone''] FILE (Walker_init [''.'']) = Inr (Walker_init [''.''])"
proof -
  have 1: "build ex_db ex_link_stat (Some ex_link_tree) (Walker_init [''.'']) = Inr ex_link_built"
    by (simp add: ex_defs model_defs)
  have 2: "entries_top [''.''] (Some ex_link_tree) = [([''.'', ''link''], Entry Symlink)]"
    by (simp add: entries_top_def ex_link_tree_def)
  have 3: "ex_link_stat [''.'', ''link''] = Inr (1000, 30)"
    by (simp add: ex_link_stat_def)
  have 4: "ex_link_stat [''.'', ''gone''] = Inl FileNotFoundError"
    by (simp add: ex_link_stat_def)
  have 5: "top' (Walker_init [''.'']) = [''.'']" by (simp add: Walker_init_def)
  have m: "([''.'', ''link''], Entry Symlink) \<in> set (entries_top [''.''] (Some ex_link_tree))"
    by (simp add: 2)
  note inst = other_entries_are_files [of ex_db ex_link_stat ex_link_tree "Walker_init [''.'']"
         "Some ex_link_tree" "[''.'']" ex_link_built "[''.'', ''gone'']" FILE]
  from inst 1 m 3 have a: "\<exists>r gr. map_of (by_user ex_link_built) 1000 = Some r \<and> [''.'', ''link''] \<in> set (files r) \<and>
              map_of (by_group ex_link_built) 30 = Some gr \<and> [''.'', ''link''] \<in> set (files gr)"
    by blast
  from inst m 5 have b: "([''.'', ''link''], FILE) \<in> set (calls (walk_top [''.''] (Some ex_link_tree)))"
    by metis
  from inst 4 have c: "add_thing ex_db ex_link_stat [''.'', ''gone''] FILE (Walker_init [''.'']) = Inr (Walker_init [''.''])"
    by blast
  from 1 2 3 a b c show ?thesis by simp
qed

subsection \<open>C3: a root path that does not exist\<close>




subsection \<open>C4: a member name without a user entry\<close>

text \<open>
  C4 says that a member name that cannot be resolved is dropped from the group and that
  the filter pass goes on and completes. Counterexample: carol is on the roster of
  \<open>staff\<close> and has no user entry; after the traversal of \<open>ex_tree\<close> the filter pass does
  not complete, it raises \<open>KeyError\<close>.
\<close>

theorem unresolved_member_counterexample:
  "getpwnam ex_db_ghost ''carol'' = None
   \<and> build_loop ex_db_ghost ex_stat (walk_top [''.''] (Some ex_tree)) (Walker_init [''.''])
       = Inr ex_aggregated
   \<and> filter_membership ex_db_ghost ex_aggregated = Inl KeyError"
  by (simp add: ex_defs model_defs)

text \<open>
  C4 as amended: a member name that \<open>pwd.getpwnam\<close> cannot resolve is not dropped. When
  some group record of the table has such a member, the filter pass never completes; when
  its first three passes succeed, the fourth raises \<open>KeyError\<close>, which ends the pass: no
  membership is trimmed and no further group is processed.
\<close>

theorem trim_unresolved_member_raises:
  assumes "map_of (by_group w) gid = Some r" and "mem \<in> set (members r)"
    and "getpwnam db mem = None"
  shows "(\<exists>e. filter_membership db w = Inl e) \<and>
         (\<forall>bu pg bg.
            purge_users (map fst (by_user w)) (by_user w) = Inr bu \<and>
            collect_pgrps db (map fst bu) {} = Inr pg \<and>
            purge_groups pg (length (by_group w)) (map fst (by_group w)) (by_group w) = Inr bg
            \<longrightarrow> filter_membership db w = Inl KeyError)"
proof -
  have key: "filter_membership db w = Inl KeyError"
    if a: "purge_users (map fst (by_user w)) (by_user w) = Inr bu"
      and b: "collect_pgrps db (map fst bu) {} = Inr pg"
      and c: "purge_groups pg (length (by_group w)) (map fst (by_group w)) (by_group w) = Inr bg"
    for bu pg bg
  proof -
    from c have bg: "bg = by_group w" by (rule purge_groups_same)
    from assms(1) have "gid \<in> set (map fst (by_group w))"
      by (metis map_of_eq_None_iff option.distinct(1) set_map)
    from trim_groups_unresolved [OF this assms(1,2,3)]
    have "trim_groups db bu (map fst bg) bg = Inl KeyError" by (simp add: bg)
    with a b c show ?thesis by (simp add: filter_membership_def)
  qed
  have "\<exists>e. filter_membership db w = Inl e"
  proof (cases "purge_users (map fst (by_user w)) (by_user w)")
    case (Inl e)
    then show ?thesis by (simp add: filter_membership_def)
  next
    case a: (Inr bu)
    show ?thesis
    proof (cases "collect_pgrps db (map fst bu) {}")
      case (Inl e)
      with a show ?thesis by (simp add: filter_membership_def)
    next
      case b: (Inr pg)
      show ?thesis
      proof (cases "purge_groups pg (length (by_group w)) (map fst (by_group w)) (by_group w)")
        case (Inl e)
        with a b show ?thesis by (simp add: filter_membership_def)
      next
        case c: (Inr bg)
        from key [OF a b c] show ?thesis by blast
      qed
    qed
  qed
  with key show ?thesis by blast
qed

theorem trim_unresolved_member_raises_witness:
  "filter_membership ex_db_ghost ex_aggregated = Inl KeyError"
proof -
  have 1: "map_of (by_group ex_aggregated) 20 =
     Some \<lparr>name = ''staff'', id' = 20, pgrp = 20, descr = [],
           files = [], dirs = [], members = [''alice'', ''bob'', ''carol'']\<rparr>"
    by (simp add: ex_aggregated_def)
  have 2: "''carol'' \<in> set (members \<lparr>name = ''staff'', id' = 20, pgrp = 20, descr = [],
           files = [], dirs = [], members = [''alice'', ''bob'', ''carol'']\<rparr>)"
    by simp
  have 3: "getpwnam ex_db_ghost ''carol'' = None"
    by (simp add: ex_db_ghost_def)
  have 4: "purge_users (map fst (by_user ex_aggregated)) (by_user ex_aggregated) = Inr (by_user ex_aggregated)"
    by (simp add: ex_aggregated_def)
  have 5: "collect_pgrps ex_db_ghost (map fst (by_user ex_aggregated)) {} = Inr {20}"
    by (simp add: ex_defs)
  have 6: "purge_groups {20} (length (by_group ex_aggregated)) (map fst (by_group ex_aggregated))
             (by_group ex_aggregated) = Inr (by_group ex_aggregated)"
    by (simp add: ex_aggregated_def)
  from trim_unresolved_member_raises [OF 1 2 3] 4 5 6 show ?thesis by blast
qed

subsection \<open>C5: the roster of a new primary group record\<close>

text \<open>
  C5 says that a group record newly created for the owner's primary group gets the roster
  of the identity database as its members, also when the entry's owning group is that
  primary group. In that case the record is created by the branch for the owning group,
  with no members, and the branch for the primary group finds it present: the file \<open>f\<close>
  of alice with group \<open>staff\<close>, her primary group, leaves \<open>staff\<close> without members although
  its roster names three users.
\<close>

theorem add_thing_own_primary_group_no_roster:
  "gr_mem ex_staff = [''alice'', ''bob'', ''carol'']
   \<and> add_thing ex_db ex_stat_own [''.'', ''f''] FILE (Walker_init [''.'']) =
     Inr \<lparr>top' = [''.''],
          by_user = [(1000, \<lparr>name = ''alice'', id' = 1000, pgrp = 20, descr = ''Alice'',
                             files = [[''.'', ''f'']], dirs = [], members = []\<rparr>)],
          by_group = [(20, \<lparr>name = ''staff'', id' = 20, pgrp = 20, descr = [],
                             files = [[''.'', ''f'']], dirs = [], members = []\<rparr>)],
          pgrps = {20}\<rparr>"
  by (simp add: ex_defs model_defs)

subsection \<open>C6: two runs on the same inputs\<close>

text \<open>
  C6 says that two runs over the same tree and the same identity database write the same
  bytes. The member names of a group line are joined in the iteration order of a set of
  strings, which follows the string hash of the process: two runs of \<open>main\<close> that differ
  in nothing but that hash write \<open>bob,alice\<close> and \<open>alice,bob\<close> on the line of \<open>staff\<close>.
\<close>

theorem report_member_order_depends_on_hash:
  "main (ex_host\<lparr>str_hash := length\<rparr>) [''prog''] =
     (None, [(''passwd'', ''alice:*:1000:20:::\<newline>bob:*:1001:20:::\<newline>''),
             (''group'', ''staff:*:20:bob,alice\<newline>proj:*:30:\<newline>'')])
   \<and> main (ex_host\<lparr>str_hash := (\<lambda>s. 10 - length s)\<rparr>) [''prog''] =
     (None, [(''passwd'', ''alice:*:1000:20:::\<newline>bob:*:1001:20:::\<newline>''),
             (''group'', ''staff:*:20:alice,bob\<newline>proj:*:30:\<newline>'')])"
  by (simp add: ex_defs model_defs)

subsection \<open>C7: both artifacts or none\<close>

text \<open>
  C7 says that no run leaves exactly one of the two artifacts written. Counterexample:
  \<open>passwd\<close> is written before \<open>group\<close>, and when \<open>group\<close> cannot be written (it is a
  directory, say) the run ends with \<open>OSError\<close> after \<open>passwd\<close> alone has been written.
\<close>

theorem partial_write_counterexample:
  "main (ex_host\<lparr>can_write := (\<lambda>p. p \<noteq> ''group'')\<rparr>) [''prog''] =
     (Some OSError, [(''passwd'', ''alice:*:1000:20:::\<newline>bob:*:1001:20:::\<newline>'')])"
  by (simp add: ex_defs model_defs)

text \<open>
  C7 as amended: a run whose traversal, aggregation or filtering raises writes neither
  artifact; in particular, when some entry of the tree has an owning uid or gid without a
  record in the identity database, the run ends with an exception and exit status 1
  before any artifact is written (\<open>_add_thing\<close> raises \<open>KeyError\<close> on that entry). A run
  that ends without an exception has written both artifacts; and the files written by
  any run are none, \<open>passwd\<close> alone, or \<open>passwd\<close> and then \<open>group\<close>.
\<close>

theorem main_writes_none_or_passwd_first:
  "(build (identity h) (stat_of h) (tree_at h (top' (main_walker argv))) (main_walker argv) = Inl e
      \<longrightarrow> main h argv = (Some e, []))
   \<and> ((p, nd) \<in> set (entries_top (top' (main_walker argv)) (tree_at h (top' (main_walker argv))))
      \<and> stat_of h p = Inr (u, g)
      \<and> (getpwuid (identity h) u = None \<or> getgrgid (identity h) g = None)
      \<longrightarrow> (\<exists>x. main h argv = (Some x, [])) \<and> exit_status (main h argv) = 1)
   \<and> (stat item = Inr (uid, gid) \<and> (getpwuid db uid = None \<or> getgrgid db gid = None)
      \<longrightarrow> add_thing db stat item itype w = Inl KeyError)
   \<and> (fst (main h argv) = None \<longrightarrow> map fst (snd (main h argv)) = [''passwd'', ''group''])
   \<and> (map fst (snd (main h argv)) = [] \<or>
      map fst (snd (main h argv)) = [''passwd''] \<or>
      map fst (snd (main h argv)) = [''passwd'', ''group''])"
proof (intro conjI impI)
  assume "build (identity h) (stat_of h) (tree_at h (top' (main_walker argv))) (main_walker argv) = Inl e"
  then show "main h argv = (Some e, [])" by (simp add: main_def Let_def)
next
  assume a: "(p, nd) \<in> set (entries_top (top' (main_walker argv)) (tree_at h (top' (main_walker argv))))
      \<and> stat_of h p = Inr (u, g)
      \<and> (getpwuid (identity h) u = None \<or> getgrgid (identity h) g = None)"
  then have "\<exists>x. build (identity h) (stat_of h) (tree_at h (top' (main_walker argv))) (main_walker argv) = Inl x"
    using build_unknown_owner [of p nd "main_walker argv" "tree_at h (top' (main_walker argv))"
        "stat_of h" u g "identity h"] by blast
  then obtain x where "build (identity h) (stat_of h) (tree_at h (top' (main_walker argv))) (main_walker argv) = Inl x"
    by blast
  then have m: "main h argv = (Some x, [])" by (simp add: main_def Let_def)
  then show "\<exists>x. main h argv = (Some x, [])" by blast
  from m show "exit_status (main h argv) = 1" by (simp add: exit_status_def)
next
  assume "stat item = Inr (uid, gid) \<and> (getpwuid db uid = None \<or> getgrgid db gid = None)"
  then show "add_thing db stat item itype w = Inl KeyError"
    by (auto simp: add_thing_def split: option.splits)
next
  assume "fst (main h argv) = None"
  then show "map fst (snd (main h argv)) = [''passwd'', ''group'']"
    by (auto simp: main_def Let_def report_success split: sum.splits)
next
  show "map fst (snd (main h argv)) = [] \<or>
        map fst (snd (main h argv)) = [''passwd''] \<or>
        map fst (snd (main h argv)) = [''passwd'', ''group'']"
    using report_written by (auto simp: main_def Let_def split: sum.splits)
qed

theorem main_writes_none_or_passwd_first_witness:
  "([''.'', ''f''], Entry Regular) \<in> set (entries_top [''.''] (Some ex_tree))
   \<and> ex_stat_stranger [''.'', ''f''] = Inr (4242, 30)
   \<and> getpwuid ex_db 4242 = None
   \<and> main (ex_host\<lparr>stat_of := ex_stat_stranger\<rparr>) [''prog''] = (Some KeyError, [])
   \<and> exit_status (main (ex_host\<lparr>stat_of := ex_stat_stranger\<rparr>) [''prog'']) = 1
   \<and> add_thing ex_db ex_stat_stranger [''.'', ''f''] FILE (Walker_init [''.'']) = Inl KeyError
   \<and> map fst (snd (main ex_host [''prog''])) = [''passwd'', ''group'']"
proof -
  let ?h = "ex_host\<lparr>stat_of := ex_stat_stranger\<rparr>"
  have t: "top' (main_walker [''prog'']) = [''.'']" "tree_at ?h [''.''] = Some ex_tree"
    "identity ?h = ex_db" "stat_of ?h = ex_stat_stranger"
    by (simp_all add: main_walker_def Walker_init_def ex_host_def)
  have 0: "([''.'', ''f''], Entry Regular) \<in> set (entries_top [''.''] (Some ex_tree))"
    by (simp add: entries_top_def ex_tree_def)
  have 1: "build (identity ?h) (stat_of ?h) (tree_at ?h (top' (main_walker [''prog''])))
             (main_walker [''prog'']) = Inl KeyError"
    by (simp add: ex_defs model_defs)
  have 2: "ex_stat_stranger [''.'', ''f''] = Inr (4242, 30)" and 22: "getpwuid ex_db 4242 = None"
    by (simp_all add: ex_defs)
  have 3: "fst (main ex_host [''prog'']) = None"
    by (simp add: ex_defs model_defs)
  note inst = main_writes_none_or_passwd_first [of ?h "[''prog'']" KeyError "[''.'', ''f'']" "Entry Regular"
         4242 30 ex_stat_stranger "[''.'', ''f'']" 4242 30 ex_db FILE "Walker_init [''.'']"]
  from inst 1 have a: "main ?h [''prog''] = (Some KeyError, [])" by blast
  from inst 0 2 22 t have b: "exit_status (main ?h [''prog'']) = 1" by metis
  from inst 2 22 have c: "add_thing ex_db ex_stat_stranger [''.'', ''f''] FILE (Walker_init [''.'']) = Inl KeyError"
    by blast
  from main_writes_none_or_passwd_first [of ex_host "[''prog'']"] 3
  have d: "map fst (snd (main ex_host [''prog''])) = [''passwd'', ''group'']" by blast
  from 0 2 22 a b c d show ?thesis by simp
qed

subsection \<open>C8: the lines of the two artifacts\<close>

text \<open>
  C8: after \<open>build\<close>, when both files can be written, the user artifact is the
  concatenation of one line \<open>name:*:id:primary_group_id:::\<close> for every record of the user
  table and the group artifact of one line \<open>name:*:id:members\<close> for every record of the
  group table, where the ids are written in decimal, the name and the primary group are
  those of the identity database for that id, and \<open>members\<close> are the member names of the
  record, each once, joined by commas; the ids of the lines of each artifact are strictly
  ascending, hence without duplicates. When the names of the identity database hold no
  colon and no newline, this is what the text itself shows: reading the third field of
  every line of an artifact back as a number gives the ids of the records, strictly
  ascending. The joined text is empty for no members and ends with the last member name,
  not with a comma.
\<close>

theorem report_lines:
  assumes "build db stat root (Walker_init t) = Inr w" and "wr ''passwd''" and "wr ''group''"
  shows "(\<exists>us gs ptxt gtxt.
      report wr h w = (None, [(''passwd'', ptxt), (''group'', gtxt)])
      \<and> ptxt = concat (map (\<lambda>r. name r @ '':*:'' @ str (id' r) @ '':'' @ str (pgrp r) @ '':::\<newline>'') us)
      \<and> gtxt = concat (map (\<lambda>r. name r @ '':*:'' @ str (id' r) @ '':'' @
                                  join '','' (set_iter h (members r)) @ ''\<newline>'') gs)
      \<and> set us = ran (map_of (by_user w)) \<and> set gs = ran (map_of (by_group w))
      \<and> sorted_wrt (<) (map id' us) \<and> sorted_wrt (<) (map id' gs)
      \<and> (\<forall>g \<in> set gs. set (set_iter h (members g)) = set (members g)
                        \<and> distinct (set_iter h (members g)))
      \<and> (\<forall>r \<in> set us. \<exists>pw. getpwuid db (id' r) = Some pw \<and> name r = pw_name pw
                              \<and> pgrp r = pw_gid pw)
      \<and> (\<forall>r \<in> set gs. \<exists>gr. getgrgid db (id' r) = Some gr \<and> name r = gr_name gr
                              \<and> set (members r) \<subseteq> set (gr_mem gr))
      \<and> (clean_db db \<longrightarrow>
            map line_id (lines_of ptxt) = map id' us \<and> map line_id (lines_of gtxt) = map id' gs
            \<and> sorted_wrt (<) (map line_id (lines_of ptxt))
            \<and> sorted_wrt (<) (map line_id (lines_of gtxt))))
    \<and> join '','' [] = []
    \<and> (\<forall>ms m. join '','' (ms @ [m]) = (if ms = [] then m else join '','' ms @ '','' @ m))
    \<and> (\<forall>n. nat_of_decimal (str n) = n \<and> str n \<noteq> [] \<and> set (str n) \<subseteq> set ''0123456789'')"
proof -
  from build_tables_ok [OF assms(1)] have u: "table_ok (by_user w)" and g: "table_ok (by_group w)"
    by (simp_all add: tables_ok_def)
  from build_names_ok [OF assms(1)] have nm: "names_ok db w" .
  let ?us = "records_by_id (by_user w)" and ?gs = "records_by_id (by_group w)"
  let ?ptxt = "concat (map passwd_line ?us)" and ?gtxt = "concat (map (group_line h) ?gs)"
  have 1: "report wr h w = (None, [(''passwd'', ?ptxt), (''group'', ?gtxt)])"
    using assms(2,3) by (rule report_texts)
  have p: "?ptxt = concat (map (\<lambda>r. name r @ '':*:'' @ str (id' r) @ '':'' @ str (pgrp r) @ '':::\<newline>'') ?us)"
    by (simp add: passwd_line_def cong: map_cong)
  have q: "?gtxt = concat (map (\<lambda>r. name r @ '':*:'' @ str (id' r) @ '':'' @
                                  join '','' (set_iter h (members r)) @ ''\<newline>'') ?gs)"
    by (simp add: group_line_def Let_def [abs_def] cong: map_cong)
  have 2: "set ?us = ran (map_of (by_user w))" and 3: "set ?gs = ran (map_of (by_group w))"
    by (rule set_records_by_id)+
  have 4: "sorted_wrt (<) (map id' ?us)"
    using u by (rule ids_strictly_ascending)
  have 5: "sorted_wrt (<) (map id' ?gs)"
    using g by (rule ids_strictly_ascending)
  have 6: "\<forall>g \<in> set ?gs. set (set_iter h (members g)) = set (members g)
                        \<and> distinct (set_iter h (members g))"
  proof
    fix r assume "r \<in> set ?gs"
    with 3 obtain k where "map_of (by_group w) k = Some r" by (auto simp: ran_def)
    with g have "distinct (members r)" by (simp add: table_ok_def)
    then show "set (set_iter h (members r)) = set (members r) \<and> distinct (set_iter h (members r))"
      by (simp add: set_iter_def)
  qed
  have un: "\<exists>pw. getpwuid db (id' r) = Some pw \<and> name r = pw_name pw \<and> pgrp r = pw_gid pw"
    if "r \<in> set ?us" for r
  proof -
    from that 2 obtain k where k: "map_of (by_user w) k = Some r" by (auto simp: ran_def)
    with u have "id' r = k" by (simp add: table_ok_def)
    with nm k show ?thesis unfolding names_ok_def by blast
  qed
  have gn: "\<exists>gr. getgrgid db (id' r) = Some gr \<and> name r = gr_name gr \<and> set (members r) \<subseteq> set (gr_mem gr)"
    if "r \<in> set ?gs" for r
  proof -
    from that 3 obtain k where k: "map_of (by_group w) k = Some r" by (auto simp: ran_def)
    with g have "id' r = k" by (simp add: table_ok_def)
    with nm k show ?thesis unfolding names_ok_def by blast
  qed
  have 9: "map line_id (lines_of ?ptxt) = map id' ?us \<and> map line_id (lines_of ?gtxt) = map id' ?gs
            \<and> sorted_wrt (<) (map line_id (lines_of ?ptxt))
            \<and> sorted_wrt (<) (map line_id (lines_of ?gtxt))"
    if c: "clean_db db"
  proof -
    have "\<forall>r \<in> set ?us. CHR '':'' \<notin> set (name r) \<and> CHR ''\<newline>'' \<notin> set (name r)"
    proof
      fix r assume "r \<in> set ?us"
      from un [OF this] obtain pw where "getpwuid db (id' r) = Some pw" "name r = pw_name pw"
        by blast
      with c show "CHR '':'' \<notin> set (name r) \<and> CHR ''\<newline>'' \<notin> set (name r)"
        unfolding clean_db_def by metis
    qed
    then have a: "map line_id (lines_of ?ptxt) = map id' ?us" by (rule passwd_lines_read)
    have "\<forall>r \<in> set ?gs. CHR '':'' \<notin> set (name r) \<and> CHR ''\<newline>'' \<notin> set (name r) \<and>
             (\<forall>m \<in> set (members r). CHR ''\<newline>'' \<notin> set m)"
    proof
      fix r assume "r \<in> set ?gs"
      from gn [OF this] obtain gr where gr: "getgrgid db (id' r) = Some gr" "name r = gr_name gr"
        "set (members r) \<subseteq> set (gr_mem gr)"
        by blast
      from c gr(1) have "CHR '':'' \<notin> set (gr_name gr)" "CHR ''\<newline>'' \<notin> set (gr_name gr)"
        "\<forall>m \<in> set (gr_mem gr). CHR ''\<newline>'' \<notin> set m"
        unfolding clean_db_def by blast+
      with gr(2,3) show "CHR '':'' \<notin> set (name r) \<and> CHR ''\<newline>'' \<notin> set (name r) \<and>
             (\<forall>m \<in> set (members r). CHR ''\<newline>'' \<notin> set m)"
        by auto
    qed
    then have b: "map line_id (lines_of ?gtxt) = map id' ?gs" by (rule group_lines_read)
    from a b 4 5 show ?thesis by simp
  qed
  have 10: "join '','' [] = []" by simp
  have 11: "\<forall>ms m. join '','' (ms @ [m]) = (if ms = [] then m else join '','' ms @ '','' @ m)"
    by (simp add: join_snoc)
  have 12: "\<forall>n. nat_of_decimal (str n) = n \<and> str n \<noteq> [] \<and> set (str n) \<subseteq> set ''0123456789''"
    using nat_of_decimal_str str_nonempty str_digits by blast
  have ex: "\<exists>us gs ptxt gtxt.
      report wr h w = (None, [(''passwd'', ptxt), (''group'', gtxt)])
      \<and> ptxt = concat (map (\<lambda>r. name r @ '':*:'' @ str (id' r) @ '':'' @ str (pgrp r) @ '':::\<newline>'') us)
      \<and> gtxt = concat (map (\<lambda>r. name r @ '':*:'' @ str (id' r) @ '':'' @
                                  join '','' (set_iter h (members r)) @ ''\<newline>'') gs)
      \<and> set us = ran (map_of (by_user w)) \<and> set gs = ran (map_of (by_group w))
      \<and> sorted_wrt (<) (map id' us) \<and> sorted_wrt (<) (map id' gs)
      \<and> (\<forall>g \<in> set gs. set (set_iter h (members g)) = set (members g)
                        \<and> distinct (set_iter h (members g)))
      \<and> (\<forall>r \<in> set us. \<exists>pw. getpwuid db (id' r) = Some pw \<and> name r = pw_name pw
                              \<and> pgrp r = pw_gid pw)
      \<and> (\<forall>r \<in> set gs. \<exists>gr. getgrgid db (id' r) = Some gr \<and> name r = gr_name gr
                              \<and> set (members r) \<subseteq> set (gr_mem gr))
      \<and> (clean_db db \<longrightarrow>
            map line_id (lines_of ptxt) = map id' us \<and> map line_id (lines_of gtxt) = map id' gs
            \<and> sorted_wrt (<) (map line_id (lines_of ptxt))
            \<and> sorted_wrt (<) (map line_id (lines_of gtxt)))"
    apply (rule exI [of _ ?us])
    apply (rule exI [of _ ?gs])
    apply (rule exI [of _ ?ptxt])
    apply (rule exI [of _ ?gtxt])
    using 1 p q 2 3 4 5 6 un gn 9 apply blast
    done
  from ex 10 11 12 show ?thesis by blast
qed

theorem report_lines_witness:
  "build ex_db ex_stat (Some ex_tree) (Walker_init [''.'']) = Inr ex_filtered
   \<and> clean_db ex_db
   \<and> report (can_write ex_host) (str_hash ex_host) ex_filtered =
        (None, [(''passwd'', ''alice:*:1000:20:::\<newline>bob:*:1001:20:::\<newline>''),
                (''group'', ''staff:*:20:bob,alice\<newline>proj:*:30:\<newline>'')])
   \<and> sorted_wrt (<) (map line_id (lines_of ''alice:*:1000:20:::\<newline>bob:*:1001:20:::\<newline>''))
   \<and> sorted_wrt (<) (map line_id (lines_of ''staff:*:20:bob,alice\<newline>proj:*:30:\<newline>''))
   \<and> map line_id (lines_of ''alice:*:1000:20:::\<newline>bob:*:1001:20:::\<newline>'') = [1000, 1001]
   \<and> map line_id (lines_of ''staff:*:20:bob,alice\<newline>proj:*:30:\<newline>'') = [20, 30]
   \<and> (\<exists>us gs.
        ''alice:*:1000:20:::\<newline>bob:*:1001:20:::\<newline>'' =
          concat (map (\<lambda>r. name r @ '':*:'' @ str (id' r) @ '':'' @ str (pgrp r) @ '':::\<newline>'') us)
        \<and> ''staff:*:20:bob,alice\<newline>proj:*:30:\<newline>'' =
          concat (map (\<lambda>r. name r @ '':*:'' @ str (id' r) @ '':'' @
                            join '','' (set_iter (str_hash ex_host) (members r)) @ ''\<newline>'') gs)
        \<and> set us = ran (map_of (by_user ex_filtered)) \<and> set gs = ran (map_of (by_group ex_filtered))
        \<and> sorted_wrt (<) (map id' us) \<and> sorted_wrt (<) (map id' gs))
   \<and> str 1000 = ''1000'' \<and> nat_of_decimal (str 1000) = 1000"
proof -
  let ?P = "''alice:*:1000:20:::\<newline>bob:*:1001:20:::\<newline>''"
  let ?G = "''staff:*:20:bob,alice\<newline>proj:*:30:\<newline>''"
  have 1: "build ex_db ex_stat (Some ex_tree) (Walker_init [''.'']) = Inr ex_filtered"
    by (simp add: ex_defs model_defs)
  have 2: "can_write ex_host ''passwd''" and 3: "can_write ex_host ''group''"
    by (simp_all add: ex_host_def)
  have c: "clean_db ex_db"
    by (auto simp: clean_db_def ex_defs split: if_splits)
  have r: "report (can_write ex_host) (str_hash ex_host) ex_filtered = (None, [(''passwd'', ?P), (''group'', ?G)])"
    by (simp add: ex_defs model_defs)
  from report_lines [OF 1 2 3, of "str_hash ex_host"] obtain us gs ptxt gtxt where
    a: "report (can_write ex_host) (str_hash ex_host) ex_filtered = (None, [(''passwd'', ptxt), (''group'', gtxt)])"
    and b: "ptxt = concat (map (\<lambda>r. name r @ '':*:'' @ str (id' r) @ '':'' @ str (pgrp r) @ '':::\<newline>'') us)"
      "gtxt = concat (map (\<lambda>r. name r @ '':*:'' @ str (id' r) @ '':'' @
                            join '','' (set_iter (str_hash ex_host) (members r)) @ ''\<newline>'') gs)"
      "set us = ran (map_of (by_user ex_filtered))" "set gs = ran (map_of (by_group ex_filtered))"
      "sorted_wrt (<) (map id' us)" "sorted_wrt (<) (map id' gs)"
    and d: "clean_db ex_db \<longrightarrow>
            map line_id (lines_of ptxt) = map id' us \<and> map line_id (lines_of gtxt) = map id' gs
            \<and> sorted_wrt (<) (map line_id (lines_of ptxt))
            \<and> sorted_wrt (<) (map line_id (lines_of gtxt))"
    by blast
  from a r have pq: "ptxt = ?P" "gtxt = ?G" by simp_all
  from d c have s0: "sorted_wrt (<) (map line_id (lines_of ptxt))"
    "sorted_wrt (<) (map line_id (lines_of gtxt))"
    by blast+
  note s = s0 [unfolded pq]
  have e: "map line_id (lines_of ?P) = [1000, 1001]" "map line_id (lines_of ?G) = [20, 30]"
    by (simp_all add: lines_of_def line_id_def nat_of_decimal_def digit_value_def)
  have f: "str 1000 = ''1000''" by (simp add: str.simps digit_def)
  from report_lines [OF 1 2 3, of "str_hash ex_host"] have g: "nat_of_decimal (str 1000) = 1000"
    by blast
  note b2 = b [unfolded pq]
  have ex: "\<exists>us gs.
        ?P = concat (map (\<lambda>r. name r @ '':*:'' @ str (id' r) @ '':'' @ str (pgrp r) @ '':::\<newline>'') us)
        \<and> ?G = concat (map (\<lambda>r. name r @ '':*:'' @ str (id' r) @ '':'' @
                            join '','' (set_iter (str_hash ex_host) (members r)) @ ''\<newline>'') gs)
        \<and> set us = ran (map_of (by_user ex_filtered)) \<and> set gs = ran (map_of (by_group ex_filtered))
        \<and> sorted_wrt (<) (map id' us) \<and> sorted_wrt (<) (map id' gs)"
    apply (rule exI [of _ us])
    apply (rule exI [of _ gs])
    apply (insert b2)
    apply (intro conjI)
    apply assumption+
    done
  from 1 c r s e ex f g show ?thesis by (intro conjI)
qed

subsection \<open>C9: every surviving user owns a path\<close>

text \<open>
  C9 says that every user named in the user artifact owns at least one file or directory
  in the scanned tree. Counterexample: the tree holds nothing but a symbolic link, which
  belongs to root; its target lies outside the tree and belongs to alice. \<open>stat\<close> follows
  the link, so alice is in the user artifact although the tree holds no file and no
  directory, and no entry of hers.
\<close>

theorem symlink_target_owner_counterexample:
  "entries_top [''.''] (Some ex_link_tree) = [([''.'', ''link''], Entry Symlink)]
   \<and> ex_link_lstat [''.'', ''link''] = Inr (0, 0)
   \<and> ex_link_stat [''.'', ''link''] = Inr (1000, 30)
   \<and> main ex_link_host [''prog''] =
        (None, [(''passwd'', ''alice:*:1000:20:::\<newline>''),
                (''group'', ''staff:*:20:alice\<newline>proj:*:30:\<newline>'')])"
  by (simp add: ex_defs entries_top_def model_defs)

text \<open>
  C9 as amended: after the Membership Filter has run, every user record left in the user
  table has \<open>files\<close> and \<open>dirs\<close> not both empty; after \<open>build\<close> every user record lists an
  entry of the scanned tree for which \<open>stat\<close>, which follows symbolic links, reports that
  user as the owner; and the user artifact that \<open>main\<close> writes is made of the lines of
  exactly these records, so every user named in it is the \<open>stat\<close> owner of at least one
  entry of the tree (for a symbolic link: the owner of its target).
\<close>

theorem surviving_users_are_stat_owners:
  "(filter_membership db w = Inr w' \<longrightarrow>
      (\<forall>uid r. map_of (by_user w') uid = Some r \<longrightarrow> files r \<noteq> [] \<or> dirs r \<noteq> []))
   \<and> (build db stat root (Walker_init t) = Inr b \<longrightarrow>
      (\<forall>uid r. map_of (by_user b) uid = Some r \<longrightarrow>
         (\<exists>p nd g. p \<in> owned r \<and> (p, nd) \<in> set (entries_top t root) \<and> stat p = Inr (uid, g))))
   \<and> (main h argv = (x, out) \<and> (''passwd'', txt) \<in> set out \<longrightarrow>
      (\<exists>v us.
         build (identity h) (stat_of h) (tree_at h (top' (main_walker argv))) (main_walker argv) = Inr v
         \<and> txt = concat (map (\<lambda>r. name r @ '':*:'' @ str (id' r) @ '':'' @ str (pgrp r) @ '':::\<newline>'') us)
         \<and> set us = ran (map_of (by_user v))
         \<and> (\<forall>r \<in> set us. \<exists>p nd g. p \<in> owned r
               \<and> (p, nd) \<in> set (entries_top (top' (main_walker argv)) (tree_at h (top' (main_walker argv))))
               \<and> stat_of h p = Inr (id' r, g))))"
proof -
  have 1: "files r \<noteq> [] \<or> dirs r \<noteq> []"
    if "filter_membership db w = Inr w'" "map_of (by_user w') uid = Some r" for uid r
    using filter_membership_user [OF that] by blast
  have 2: "\<exists>p nd g. p \<in> owned r \<and> (p, nd) \<in> set (entries_top t root) \<and> stat p = Inr (uid, g)"
    if "build db stat root (Walker_init t) = Inr b" "map_of (by_user b) uid = Some r" for uid r
    using that by (rule build_users_stat_owners)
  have 3: "\<exists>v us.
         build (identity h) (stat_of h) (tree_at h (top' (main_walker argv))) (main_walker argv) = Inr v
         \<and> txt = concat (map (\<lambda>r. name r @ '':*:'' @ str (id' r) @ '':'' @ str (pgrp r) @ '':::\<newline>'') us)
         \<and> set us = ran (map_of (by_user v))
         \<and> (\<forall>r \<in> set us. \<exists>p nd g. p \<in> owned r
               \<and> (p, nd) \<in> set (entries_top (top' (main_walker argv)) (tree_at h (top' (main_walker argv))))
               \<and> stat_of h p = Inr (id' r, g))"
    if m: "main h argv = (x, out)" and o: "(''passwd'', txt) \<in> set out"
  proof -
    let ?t = "top' (main_walker argv)"
    have wk: "main_walker argv = Walker_init ?t" by (rule top_main_walker)
    from m o obtain v where
      b: "build (identity h) (stat_of h) (tree_at h ?t) (main_walker argv) = Inr v" and
      r: "report (can_write h) (str_hash h) v = (x, out)"
      by (auto simp: main_def Let_def split: sum.splits)
    from b wk have b': "build (identity h) (stat_of h) (tree_at h ?t) (Walker_init ?t) = Inr v"
      by simp
    let ?us = "records_by_id (by_user v)"
    from r o have "(''passwd'', txt) \<in> set (snd (report (can_write h) (str_hash h) v))" by simp
    then have "txt = concat (map passwd_line ?us)" by (rule report_passwd_text)
    then have tx: "txt = concat (map (\<lambda>r. name r @ '':*:'' @ str (id' r) @ '':'' @ str (pgrp r) @ '':::\<newline>'') ?us)"
      by (simp add: passwd_line_def cong: map_cong)
    have ran: "set ?us = ran (map_of (by_user v))" by (rule set_records_by_id)
    from build_tables_ok [OF b'] have ok: "table_ok (by_user v)" by (simp add: tables_ok_def)
    have own: "\<forall>r \<in> set ?us. \<exists>p nd g. p \<in> owned r
               \<and> (p, nd) \<in> set (entries_top ?t (tree_at h ?t)) \<and> stat_of h p = Inr (id' r, g)"
    proof
      fix r assume "r \<in> set ?us"
      with ran obtain k where k: "map_of (by_user v) k = Some r" by (auto simp: ran_def)
      with ok have "id' r = k" by (simp add: table_ok_def)
      with build_users_stat_owners [OF b' k]
      show "\<exists>p nd g. p \<in> owned r \<and> (p, nd) \<in> set (entries_top ?t (tree_at h ?t))
              \<and> stat_of h p = Inr (id' r, g)" by simp
    qed
    from b tx ran own show ?thesis by blast
  qed
  from 1 2 3 show ?thesis by blast
qed

theorem surviving_users_are_stat_owners_witness:
  "filter_membership ex_db ex_aggregated = Inr ex_filtered
   \<and> build ex_db ex_stat (Some ex_tree) (Walker_init [''.'']) = Inr ex_filtered
   \<and> \<not> (files \<lparr>name = ''alice'', id' = 1000, pgrp = 20, descr = ''Alice'',
                 files = [[''.'', ''f'']], dirs = [], members = []\<rparr> = []
         \<and> dirs \<lparr>name = ''alice'', id' = 1000, pgrp = 20, descr = ''Alice'',
                 files = [[''.'', ''f'']], dirs = [], members = []\<rparr> = [])
   \<and> (\<exists>p nd g. p \<in> owned \<lparr>name = ''alice'', id' = 1000, pgrp = 20, descr = ''Alice'',
                          files = [[''.'', ''f'']], dirs = [], members = []\<rparr>
          \<and> (p, nd) \<in> set (entries_top [''.''] (Some ex_tree)) \<and> ex_stat p = Inr (1000, g))
   \<and> main ex_host [''prog''] =
        (None, [(''passwd'', ''alice:*:1000:20:::\<newline>bob:*:1001:20:::\<newline>''),
                (''group'', ''staff:*:20:bob,alice\<newline>proj:*:30:\<newline>'')])
   \<and> (\<exists>v us. build (identity ex_host) (stat_of ex_host) (tree_at ex_host (top' (main_walker [''prog''])))
                 (main_walker [''prog'']) = Inr v
         \<and> ''alice:*:1000:20:::\<newline>bob:*:1001:20:::\<newline>'' =
             concat (map (\<lambda>r. name r @ '':*:'' @ str (id' r) @ '':'' @ str (pgrp r) @ '':::\<newline>'') us)
         \<and> set us = ran (map_of (by_user v))
         \<and> (\<forall>r \<in> set us. \<exists>p nd g. p \<in> owned r
               \<and> (p, nd) \<in> set (entries_top (top' (main_walker [''prog''])) (tree_at ex_host (top' (main_walker [''prog'']))))
               \<and> stat_of ex_host p = Inr (id' r, g)))"
proof -
  have 1: "filter_membership ex_db ex_aggregated = Inr ex_filtered"
    by (simp add: ex_defs model_defs)
  have 2: "build ex_db ex_stat (Some ex_tree) (Walker_init [''.'']) = Inr ex_filtered"
    by (simp add: ex_defs model_defs)
  have 3: "map_of (by_user ex_filtered) 1000 =
             Some \<lparr>name = ''alice'', id' = 1000, pgrp = 20, descr = ''Alice'',
                   files = [[''.'', ''f'']], dirs = [], members = []\<rparr>"
    by (simp add: ex_filtered_def ex_aggregated_def)
  have 4: "main ex_host [''prog''] =
        (None, [(''passwd'', ''alice:*:1000:20:::\<newline>bob:*:1001:20:::\<newline>''),
                (''group'', ''staff:*:20:bob,alice\<newline>proj:*:30:\<newline>'')])"
    by (simp add: ex_defs model_defs)
  have 5: "(''passwd'', ''alice:*:1000:20:::\<newline>bob:*:1001:20:::\<newline>'') \<in>
             set [(''passwd'', ''alice:*:1000:20:::\<newline>bob:*:1001:20:::\<newline>''),
                  (''group'', ''staff:*:20:bob,alice\<newline>proj:*:30:\<newline>'')]"
    by simp
  note inst = surviving_users_are_stat_owners [of ex_db ex_aggregated ex_filtered ex_stat "Some ex_tree"
      "[''.'']" ex_filtered ex_host "[''prog'']" None
      "[(''passwd'', ''alice:*:1000:20:::\<newline>bob:*:1001:20:::\<newline>''),
        (''group'', ''staff:*:20:bob,alice\<newline>proj:*:30:\<newline>'')]"
      "''alice:*:1000:20:::\<newline>bob:*:1001:20:::\<newline>''"]
  from inst 2 3
  have a: "\<exists>p nd g. p \<in> owned \<lparr>name = ''alice'', id' = 1000, pgrp = 20, descr = ''Alice'',
                          files = [[''.'', ''f'']], dirs = [], members = []\<rparr>
          \<and> (p, nd) \<in> set (entries_top [''.''] (Some ex_tree)) \<and> ex_stat p = Inr (1000, g)"
    by blast
  from inst 4 5
  have b: "\<exists>v us. build (identity ex_host) (stat_of ex_host) (tree_at ex_host (top' (main_walker [''prog''])))
                 (main_walker [''prog'']) = Inr v
         \<and> ''alice:*:1000:20:::\<newline>bob:*:1001:20:::\<newline>'' =
             concat (map (\<lambda>r. name r @ '':*:'' @ str (id' r) @ '':'' @ str (pgrp r) @ '':::\<newline>'') us)
         \<and> set us = ran (map_of (by_user v))
         \<and> (\<forall>r \<in> set us. \<exists>p nd g. p \<in> owned r
               \<and> (p, nd) \<in> set (entries_top (top' (main_walker [''prog''])) (tree_at ex_host (top' (main_walker [''prog'']))))
               \<and> stat_of ex_host p = Inr (id' r, g))"
    by blast
  from 1 2 4 a b show ?thesis by simp
qed

subsection \<open>C10: the root itself is never recorded\<close>

text \<open>
  C10: the root directory handed to the Walker is never recorded as an owned entry. Every
  path in a record of the user table or of the group table after \<open>build\<close> lies strictly
  beneath the root, so the root is in no record's \<open>files\<close> or \<open>dirs\<close>; the result of
  \<open>build\<close> does not depend on what \<open>stat\<close> reports for the root, so its owner contributes
  no record on its own account; and a root directory without entries yields empty tables.
\<close>

theorem root_is_never_recorded:
  "(build db stat root (Walker_init t) = Inr w \<longrightarrow>
      (\<forall>k r. map_of (by_user w) k = Some r \<or> map_of (by_group w) k = Some r \<longrightarrow>
         t \<notin> owned r \<and> (\<forall>p \<in> owned r. below t p)))
   \<and> build db (stat(t := x)) root (Walker_init t) = build db stat root (Walker_init t)
   \<and> build db stat (Some (Directory [])) (Walker_init t) = Inr (Walker_init t)"
proof -
  have a: "t \<notin> owned r \<and> (\<forall>p \<in> owned r. below t p)"
    if b: "build db stat root (Walker_init t) = Inr w"
      and r: "map_of (by_user w) k = Some r \<or> map_of (by_group w) k = Some r"
    for k r
  proof -
    from b obtain w1 where
      1: "build_loop db stat (walk_top t root) (Walker_init t) = Inr w1" and
      2: "filter_membership db w1 = Inr w"
      by (rule build_Inr)
    have sub: "owned r \<subseteq> set (things (walk_top t root))"
      using r
    proof
      assume "map_of (by_user w) k = Some r"
      from filter_membership_user [OF 2 this] have "map_of (by_user w1) k = Some r" by simp
      with build_loop_users_own [OF 1] show ?thesis
        by (auto simp: users_own_def)
    next
      assume "map_of (by_group w) k = Some r"
      from filter_membership_group [OF 2 this] obtain r0 ms where
        "map_of (by_group w1) k = Some r0" and "r = r0\<lparr>members := ms\<rparr>"
        by blast
      with build_loop_groups_own [OF 1] show ?thesis
        by (auto simp: groups_own_def)
    qed
    then have all: "\<forall>p \<in> owned r. below t p"
      using things_below by blast
    then have "t \<notin> owned r"
      using below_neq by blast
    with all show ?thesis by simp
  qed
  have b: "build db (stat(t := x)) root (Walker_init t) = build db stat root (Walker_init t)"
  proof (rule build_cong_stat)
    fix item
    assume "item \<in> set (things (walk_top (top' (Walker_init t)) root))"
    then have "below t item"
      using things_below by (simp add: Walker_init_def)
    then have "item \<noteq> t" by (rule below_neq)
    then show "(stat(t := x)) item = stat item" by simp
  qed
  have c: "build db stat (Some (Directory [])) (Walker_init t) = Inr (Walker_init t)"
    by (simp add: build_def walk_top_def dirnames_def filenames_def Walker_init_def
        filter_membership_def)
  from a b c show ?thesis by blast
qed

theorem root_is_never_recorded_witness:
  "build ex_db ex_stat (Some ex_tree) (Walker_init [''.'']) = Inr ex_filtered
   \<and> [''.''] \<notin> owned \<lparr>name = ''proj'', id' = 30, pgrp = 30, descr = [],
                       files = [[''.'', ''f'']], dirs = [[''.'', ''d'']], members = []\<rparr>
   \<and> below [''.''] [''.'', ''d'']
   \<and> build ex_db (ex_stat([''.''] := Inr (1002, 20))) (Some ex_tree) (Walker_init [''.''])
       = Inr ex_filtered"
proof -
  have 1: "build ex_db ex_stat (Some ex_tree) (Walker_init [''.'']) = Inr ex_filtered"
    by (simp add: ex_defs model_defs)
  have 2: "map_of (by_group ex_filtered) 30 = Some \<lparr>name = ''proj'', id' = 30, pgrp = 30, descr = [],
                       files = [[''.'', ''f'']], dirs = [[''.'', ''d'']], members = []\<rparr>"
    by (simp add: ex_filtered_def)
  have 3: "[''.'', ''d''] \<in> owned \<lparr>name = ''proj'', id' = 30, pgrp = 30, descr = [],
                       files = [[''.'', ''f'']], dirs = [[''.'', ''d'']], members = []\<rparr>"
    by (simp add: owned_def)
  from root_is_never_recorded [of ex_db ex_stat "Some ex_tree" "[''.'']" ex_filtered "Inr (1002, 20)"] 1 2 3
  show ?thesis by auto
qed

end
